theory Spec2Isabelle
  imports Main "HOL-Library.AList"
begin

section \<open>Strings\<close>

text \<open>
  JavaScript strings are modelled as \<^typ>\<open>string\<close>. The helpers below are the library
  functions of the runtime that the sources call: \<^verbatim>\<open>startsWith\<close>, \<^verbatim>\<open>split\<close>,
  \<^verbatim>\<open>Array.prototype.join\<close>, \<^verbatim>\<open>trim\<close> and the printing of a number in a template.
\<close>

definition startsWith :: "string \<Rightarrow> string \<Rightarrow> bool" where
  "startsWith s p = (take (length p) s = p)"

fun split_on :: "char \<Rightarrow> string \<Rightarrow> string list" where
  "split_on c [] = [] # []"
| "split_on c (x # xs) =
     (if x = c then [] # split_on c xs
      else (case split_on c xs of
              [] \<Rightarrow> [x] # []
            | h # t \<Rightarrow> (x # h) # t))"

fun join_with :: "string \<Rightarrow> string list \<Rightarrow> string" where
  "join_with sep [] = []"
| "join_with sep [s] = s"
| "join_with sep (s # t # ts) = s @ sep @ join_with sep (t # ts)"

text \<open>
  The letters that matter to the case-insensitive patterns of the sources are ASCII; a
  pattern without the \<^verbatim>\<open>u\<close> flag never lets a character outside ASCII match an ASCII
  letter.
\<close>

definition lower_ascii :: "char \<Rightarrow> char" where
  "lower_ascii c =
     (let n = (of_char c :: nat) in if 65 \<le> n \<and> n \<le> 90 then char_of (n + 32) else c)"

text \<open>
  \<^verbatim>\<open>String.prototype.trim\<close> strips, from both ends, every code point that is white space
  or a line terminator of the language: U+0009 to U+000D, U+0020, U+00A0, U+1680, U+2000
  to U+200A, U+2028, U+2029, U+202F, U+205F, U+3000 and U+FEFF. A \<^typ>\<open>string\<close> holds
  the UTF-8 bytes of the JavaScript string (as the marks of the status lines below do), so
  each of these code points is the byte sequence that encodes it. In well-formed UTF-8 no
  such sequence starts or ends inside the encoding of another code point, so stripping the
  sequences is stripping the code points.
\<close>

definition white_space :: "string list" where
  "white_space =
     map (\<lambda>c. c # []) [CHR 0x09, CHR 0x0A, CHR 0x0B, CHR 0x0C, CHR 0x0D, CHR 0x20]
     @ [CHR 0xC2, CHR 0xA0]
     # [CHR 0xE1, CHR 0x9A, CHR 0x80]
     # map (\<lambda>c. [CHR 0xE2, CHR 0x80, c])
         [CHR 0x80, CHR 0x81, CHR 0x82, CHR 0x83, CHR 0x84, CHR 0x85, CHR 0x86, CHR 0x87,
          CHR 0x88, CHR 0x89, CHR 0x8A, CHR 0xA8, CHR 0xA9, CHR 0xAF]
     @ [CHR 0xE2, CHR 0x81, CHR 0x9F]
     # [CHR 0xE3, CHR 0x80, CHR 0x80]
     # [CHR 0xEF, CHR 0xBB, CHR 0xBF]
     # []"

text \<open>\<open>strip_leading ws s\<close> removes from the front of \<open>s\<close> every sequence of \<open>ws\<close>.\<close>

fun strip_leading :: "string list \<Rightarrow> string \<Rightarrow> string" where
  "strip_leading ws [] = []"
| "strip_leading ws (c # cs) =
     (case find (\<lambda>w. w \<noteq> [] \<and> startsWith (c # cs) w) ws of
        None \<Rightarrow> c # cs
      | Some w \<Rightarrow> strip_leading ws (drop (length w - 1) cs))"

definition trimStart :: "string \<Rightarrow> string" where
  "trimStart s = strip_leading white_space s"

definition trimEnd :: "string \<Rightarrow> string" where
  "trimEnd s = rev (strip_leading (map rev white_space) (rev s))"

definition trim :: "string \<Rightarrow> string" where
  "trim s = trimEnd (trimStart s)"

definition digit_char :: "nat \<Rightarrow> char" where
  "digit_char d = char_of (48 + d)"

fun show_nat :: "nat \<Rightarrow> string" where
  "show_nat n = (if n < 10 then [digit_char n] else show_nat (n div 10) @ [digit_char (n mod 10)])"

section \<open>Command-line arguments (utils/args.ts)\<close>

text \<open>
  \<^verbatim>\<open>type Args = { watch: boolean; project?: string }\<close>
\<close>

record Args =
  watch :: bool
  project :: "string option"

text \<open>
  What a call of \<^verbatim>\<open>parseArgs\<close> can do: return the arguments, throw the usage error
  of \<^verbatim>\<open>-p\<close>, or print the help text and leave the process with \<^verbatim>\<open>process.exit(0)\<close>.
  The help text is the only output the function ever writes.
\<close>

datatype parse_outcome =
    Returned Args
  | Threw string
  | HelpExit nat

definition project_usage_error :: string where
  "project_usage_error = ''The -p/--project flag requires a path to a tsconfig.json file.''"

definition is_watch_flag :: "string \<Rightarrow> bool" where
  "is_watch_flag a = (a = ''-w'' \<or> a = ''--watch'')"

definition is_project_flag :: "string \<Rightarrow> bool" where
  "is_project_flag a = (a = ''-p'' \<or> a = ''--project'')"

definition is_help_flag :: "string \<Rightarrow> bool" where
  "is_help_flag a = (a = ''-h'' \<or> a = ''--help'')"

text \<open>
  The test \<^verbatim>\<open>next && !next.startsWith("-")\<close> on the argument after \<^verbatim>\<open>-p\<close>. The empty
  string is falsy, as is the \<^verbatim>\<open>undefined\<close> read past the end of the array.
\<close>

definition is_path_value :: "string \<Rightarrow> bool" where
  "is_path_value nxt = (nxt \<noteq> [] \<and> \<not> startsWith nxt ''-'')"

text \<open>The \<^verbatim>\<open>for\<close> loop of \<^verbatim>\<open>parseArgs\<close>, on the arguments from index \<open>i\<close> on.\<close>

fun parseArgs_loop :: "Args \<Rightarrow> string list \<Rightarrow> parse_outcome" where
  "parseArgs_loop args [] = Returned args"
| "parseArgs_loop args (a # rest) =
     (if is_watch_flag a then parseArgs_loop (args\<lparr>watch := True\<rparr>) rest
      else if is_project_flag a then
        (case rest of
           [] \<Rightarrow> Threw project_usage_error
         | nxt # rest' \<Rightarrow>
             if is_path_value nxt
             then parseArgs_loop (args\<lparr>project := Some nxt\<rparr>) rest'
             else Threw project_usage_error)
      else if is_help_flag a then HelpExit 0
      else parseArgs_loop args rest)"

definition parseArgs :: "string list \<Rightarrow> parse_outcome" where
  "parseArgs argv = parseArgs_loop \<lparr>watch = False, project = None\<rparr> argv"

text \<open>
  The argument vector without the arguments that are skipped, in the words of the
  specification: an argument stays when it is one of the three options, in either
  spelling, or when the argument directly before it is \<^verbatim>\<open>-p\<close>/\<^verbatim>\<open>--project\<close>; every other
  argument (an unknown flag, a stray positional argument) is removed. Nothing else is
  removed: what stands directly after \<^verbatim>\<open>-p\<close>/\<^verbatim>\<open>--project\<close> stays, whatever it is. The
  list is paired with itself shifted by one place; the empty string stands before the
  first argument.
\<close>

definition is_option :: "string \<Rightarrow> bool" where
  "is_option a = (is_watch_flag a \<or> is_project_flag a \<or> is_help_flag a)"

definition remaining_args :: "string list \<Rightarrow> string list" where
  "remaining_args argv =
     map snd (filter (\<lambda>(before, a). is_option a \<or> is_project_flag before)
                     (zip ([] # argv) argv))"

section \<open>Paths (node:path, POSIX flavour)\<close>

text \<open>
  \<^verbatim>\<open>path.relative\<close> and \<^verbatim>\<open>path.join\<close> are functions of the runtime. They are modelled
  on the segments of a path: \<open>normalize_segments\<close> is the runtime's normalisation, which
  drops empty and \<^verbatim>\<open>.\<close> segments and lets \<^verbatim>\<open>..\<close> cancel the segment before it (above
  the root of an absolute path it is dropped, above a relative path it is kept).
\<close>

definition isAbsolute :: "string \<Rightarrow> bool" where
  "isAbsolute p = startsWith p ''/''"

fun normalize_segments :: "bool \<Rightarrow> string list \<Rightarrow> string list \<Rightarrow> string list" where
  "normalize_segments allowAbove acc [] = acc"
| "normalize_segments allowAbove acc (s # ss) =
     (if s = [] \<or> s = ''.'' then normalize_segments allowAbove acc ss
      else if s = ''..'' then
        (if acc \<noteq> [] \<and> last acc \<noteq> ''..'' then normalize_segments allowAbove (butlast acc) ss
         else if allowAbove then normalize_segments allowAbove (acc @ [''..'']) ss
         else normalize_segments allowAbove acc ss)
      else normalize_segments allowAbove (acc @ [s]) ss)"

text \<open>
  \<^verbatim>\<open>path.resolve\<close> of one path: a relative path is taken from the working directory.
  The result is the list of segments below the root.
\<close>

definition resolve_segments :: "string \<Rightarrow> string \<Rightarrow> string list" where
  "resolve_segments cwd p =
     normalize_segments False [] (split_on CHR ''/'' (if isAbsolute p then p else cwd @ ''/'' @ p))"

fun common_prefix_len :: "string list \<Rightarrow> string list \<Rightarrow> nat" where
  "common_prefix_len (x # xs) (y # ys) = (if x = y then Suc (common_prefix_len xs ys) else 0)"
| "common_prefix_len _ _ = 0"

definition path_relative :: "string \<Rightarrow> string \<Rightarrow> string \<Rightarrow> string" where
  "path_relative cwd from to =
     (if from = to then []
      else let f = resolve_segments cwd from; t = resolve_segments cwd to in
        if f = t then []
        else let n = common_prefix_len f t in
          join_with ''/'' (replicate (length f - n) ''..'' @ drop n t))"

definition path_normalize :: "string \<Rightarrow> string" where
  "path_normalize p =
     (if p = [] then ''.''
      else let ab = isAbsolute p; trailing = (last p = CHR ''/'');
               s = join_with ''/'' (normalize_segments (\<not> ab) [] (split_on CHR ''/'' p)) in
        if s = [] then (if ab then ''/'' else if trailing then ''./'' else ''.'')
        else (if ab then ''/'' else []) @ s @ (if trailing then ''/'' else []))"

definition path_join :: "string \<Rightarrow> string \<Rightarrow> string" where
  "path_join a b =
     (let parts = filter (\<lambda>s. s \<noteq> []) [a, b] in
      if parts = [] then ''.'' else path_normalize (join_with ''/'' parts))"

section \<open>Source files and emitted artifacts (utils/fs.ts)\<close>

definition ts_extensions :: "string list" where
  "ts_extensions = [''ts'', ''tsx'', ''mts'', ''cts'']"

text \<open>
  The pattern \<^verbatim>\<open>/\.(ts|tsx|mts|cts)$/i\<close>: a match starts at a dot whose rest, up to the
  end of the string, is one of the four extensions in any case. \<^verbatim>\<open>test\<close> asks for a
  match anywhere, \<^verbatim>\<open>replace\<close> removes the leftmost one.
\<close>

definition ext_matches_here :: "char \<Rightarrow> string \<Rightarrow> bool" where
  "ext_matches_here c cs = (c = CHR ''.'' \<and> map lower_ascii cs \<in> set ts_extensions)"

fun isTsLike :: "string \<Rightarrow> bool" where
  "isTsLike [] = False"
| "isTsLike (c # cs) = (ext_matches_here c cs \<or> isTsLike cs)"

fun stripTsExt :: "string \<Rightarrow> string" where
  "stripTsExt [] = []"
| "stripTsExt (c # cs) = (if ext_matches_here c cs then [] else c # stripTsExt cs)"

definition EMITTED_SUFFIXES :: "string list" where
  "EMITTED_SUFFIXES =
     [''.js'', ''.js.map'', ''.d.ts'', ''.d.ts.map'', ''.mjs'', ''.mjs.map'', ''.cjs'', ''.cjs.map'']"

text \<open>
  \<^verbatim>\<open>makeDistCleaner(rootDirAbs, outDirAbs)\<close> closes over the two roots; here they are
  parameters, with the working directory that \<^verbatim>\<open>path.relative\<close> resolves against.
\<close>

definition toOutPath :: "string \<Rightarrow> string \<Rightarrow> string \<Rightarrow> string \<Rightarrow> string" where
  "toOutPath cwd rootDirAbs outDirAbs srcPathAbs =
     path_join outDirAbs (path_relative cwd rootDirAbs srcPathAbs)"

text \<open>The paths that \<^verbatim>\<open>removeEmittedForSource\<close> hands to \<^verbatim>\<open>rmIfExists\<close>, in order.\<close>

definition emitted_targets :: "string \<Rightarrow> string \<Rightarrow> string \<Rightarrow> string \<Rightarrow> string list" where
  "emitted_targets cwd rootDirAbs outDirAbs srcFileAbs =
     (let outLike = toOutPath cwd rootDirAbs outDirAbs srcFileAbs;
          base = stripTsExt outLike
      in map (\<lambda>s. base @ s) EMITTED_SUFFIXES)"

text \<open>
  The file system is the set of paths that exist. \<^verbatim>\<open>fs.promises.rm(p, {force, recursive})\<close>
  removes \<open>p\<close> and everything below it; a missing path is no error.
\<close>

type_synonym filesystem = "string set"

definition under :: "string \<Rightarrow> string \<Rightarrow> bool" where
  "under dir q = (q = dir \<or> startsWith q (dir @ ''/''))"

definition rm_rf :: "string \<Rightarrow> filesystem \<Rightarrow> filesystem" where
  "rm_rf p files = {q \<in> files. \<not> under p q}"

text \<open>
  \<^verbatim>\<open>rmIfExists\<close>: the removal can fail. A failure with code \<^verbatim>\<open>ENOENT\<close> is swallowed,
  any other one is thrown again. \<open>None\<close> is a removal that went through.
\<close>

datatype rm_failure = ENOENT | RmError string

fun rmIfExists :: "string \<Rightarrow> rm_failure option \<Rightarrow> filesystem \<Rightarrow> string + filesystem" where
  "rmIfExists p None files = Inr (rm_rf p files)"
| "rmIfExists p (Some ENOENT) files = Inr files"
| "rmIfExists p (Some (RmError e)) files = Inl e"

text \<open>The cleaner, when every removal goes through: the file system after the call.\<close>

definition removeEmittedForSource :: "string \<Rightarrow> string \<Rightarrow> string \<Rightarrow> string \<Rightarrow> filesystem \<Rightarrow> filesystem" where
  "removeEmittedForSource cwd rootDirAbs outDirAbs srcFileAbs files =
     fold rm_rf (emitted_targets cwd rootDirAbs outDirAbs srcFileAbs) files"

definition removeOutDirForSourceDir :: "string \<Rightarrow> string \<Rightarrow> string \<Rightarrow> string \<Rightarrow> filesystem \<Rightarrow> filesystem" where
  "removeOutDirForSourceDir cwd rootDirAbs outDirAbs srcDirAbs files =
     rm_rf (toOutPath cwd rootDirAbs outDirAbs srcDirAbs) files"

text \<open>
  A normalised absolute path is given by its segments below the root; \<open>abs_path\<close> writes
  it as a string. A segment is a non-empty name without a slash, other than \<^verbatim>\<open>.\<close> and
  \<^verbatim>\<open>..\<close>.
\<close>

definition seg_ok :: "string \<Rightarrow> bool" where
  "seg_ok s = (s \<noteq> [] \<and> CHR ''/'' \<notin> set s \<and> s \<noteq> ''.'' \<and> s \<noteq> ''..'')"

definition abs_path :: "string list \<Rightarrow> string" where
  "abs_path segs = (if segs = [] then ''/'' else concat (map (\<lambda>s. CHR ''/'' # s) segs))"

section \<open>One-shot processes (utils/process.ts)\<close>

text \<open>
  What the operating system reports about a process started by \<^verbatim>\<open>run\<close>: either it could
  not be started (the \<^verbatim>\<open>error\<close> event), or it exited with a code (\<open>None\<close> is the
  \<^verbatim>\<open>null\<close> code of a process ended by a signal) after writing chunks to its standard
  output and standard error and files to the disk. The chunks arrive in the order of the
  list and are appended to one buffer, whichever stream they come from.
\<close>

datatype stream = FromStdout | FromStderr

datatype run_outcome =
    Exited "nat option" "(stream \<times> string) list" "string list"
  | StartFailed string

definition captured :: "(stream \<times> string) list \<Rightarrow> string" where
  "captured chunks = concat (map snd chunks)"

fun show_code :: "nat option \<Rightarrow> string" where
  "show_code None = ''null''"
| "show_code (Some n) = show_nat n"

text \<open>
  \<^verbatim>\<open>const cleanOutput = output.trim();\<close>
  \<^verbatim>\<open>const errorMsg = cleanOutput || `${cmd} ${args.join(" ")} failed with exit code ${code}`;\<close>
\<close>

definition run_error_message :: "string \<Rightarrow> string list \<Rightarrow> nat option \<Rightarrow> string \<Rightarrow> string" where
  "run_error_message command args code output =
     (let cleanOutput = trim output in
      if cleanOutput \<noteq> [] then cleanOutput
      else command @ '' '' @ join_with '' '' args @ '' failed with exit code '' @ show_code code)"

text \<open>The promise of \<^verbatim>\<open>run\<close>: resolved on exit code 0, rejected with an error message otherwise.\<close>

fun run :: "string \<Rightarrow> string list \<Rightarrow> run_outcome \<Rightarrow> string + unit" where
  "run command args (Exited code chunks written) =
     (if code = Some 0 then Inr ()
      else Inl (run_error_message command args code (captured chunks)))"
| "run command args (StartFailed msg) = Inl (''Failed to start '' @ command @ '': '' @ msg)"

fun written_by :: "run_outcome \<Rightarrow> string list" where
  "written_by (Exited code chunks written) = written"
| "written_by (StartFailed msg) = []"

section \<open>The orchestrator (core/builder.ts)\<close>

subsection \<open>State\<close>

text \<open>The three boxes of the terminal display, each with the lines inserted so far.\<close>

record ui_state =
  bldrBox :: "string list"
  tscBox :: "string list"
  aliasBox :: "string list"

datatype signal = SIGTERM | SIGKILL

text \<open>
  A long-running child process: \<open>alive\<close> is the state of the process in the operating
  system, \<open>killed\<close> the property of that name of the runtime's process object,
  \<open>received\<close> the signals delivered to it, \<open>piped\<close> whether \<^verbatim>\<open>setupOutputPipe\<close> attached its
  handlers.
\<close>

record child =
  cmd :: string
  cmd_args :: "string list"
  alive :: bool
  killed :: bool
  received :: "signal list"
  piped :: bool

text \<open>Effects that leave the program, in the order they happen.\<close>

datatype effect =
    Terminal string
  | ScreenCreated
  | ScreenDestroyed
  | Ran string "string list"
  | Spawned string "string list"
  | WatcherStarted string
  | WatcherClosed
  | ProcessExit nat

text \<open>
  The state of a run of \<^verbatim>\<open>build\<close>: the files on disk; whether \<^verbatim>\<open>console.log\<close> and
  \<^verbatim>\<open>console.error\<close> have been replaced (lines 81 to 87); \<^verbatim>\<open>state.ui\<close>, \<^verbatim>\<open>state.tsc\<close>,
  \<^verbatim>\<open>state.alias\<close>, \<^verbatim>\<open>state.watcher\<close> (open or closed); the flag \<^verbatim>\<open>shutdown.inProgress\<close>;
  the code given to \<^verbatim>\<open>process.exit\<close>; the time spent waiting for children, in
  milliseconds; and the effects so far.
\<close>

record world =
  files :: filesystem
  console_routed :: bool
  ui :: "ui_state option"
  inProgress :: bool
  tsc_proc :: "child option"
  alias_proc :: "child option"
  watcher_open :: "bool option"
  exit_code :: "nat option"
  waited_ms :: nat
  effects :: "effect list"

definition initial_world :: "filesystem \<Rightarrow> world" where
  "initial_world fs =
     \<lparr>files = fs, console_routed = False, ui = None, inProgress = False,
      tsc_proc = None, alias_proc = None, watcher_open = None, exit_code = None,
      waited_ms = 0, effects = []\<rparr>"

definition emit :: "effect \<Rightarrow> world \<Rightarrow> world" where
  "emit e w = w\<lparr>effects := effects w @ [e]\<rparr>"

fun is_terminal :: "effect \<Rightarrow> bool" where
  "is_terminal (Terminal s) = True"
| "is_terminal _ = False"

text \<open>The lines that reached the real standard output or standard error.\<close>

definition terminal_lines :: "world \<Rightarrow> effect list" where
  "terminal_lines w = filter is_terminal (effects w)"

subsection \<open>Console\<close>

text \<open>The UTF-8 bytes of the pictographs in the messages.\<close>

definition hourglass :: string where "hourglass = [CHR 0xE2, CHR 0x8F, CHR 0xB3]"
definition check_mark :: string where "check_mark = [CHR 0xE2, CHR 0x9C, CHR 0x85]"
definition cross_mark :: string where "cross_mark = [CHR 0xE2, CHR 0x9D, CHR 0x8C]"
definition cycle_mark :: string where "cycle_mark = [CHR 0xF0, CHR 0x9F, CHR 0x94, CHR 0x84]"
definition package_mark :: string where "package_mark = [CHR 0xF0, CHR 0x9F, CHR 0x93, CHR 0xA6]"
definition folder_mark :: string where "folder_mark = [CHR 0xF0, CHR 0x9F, CHR 0x93, CHR 0x81]"
definition arrow_mark :: string where
  "arrow_mark = [CHR 0xE2, CHR 0x9E, CHR 0xA1, CHR 0xEF, CHR 0xB8, CHR 0x8F]"
definition newline :: string where "newline = [CHR 0x0A]"

text \<open>
  \<^verbatim>\<open>logToBldr\<close> of the display: the text is split into lines, lines of white space only
  are dropped (empty lines stay), the rest is inserted at the bottom of the bldr box.
\<close>

definition logToBldr :: "ui_state \<Rightarrow> string \<Rightarrow> ui_state" where
  "logToBldr u text =
     u\<lparr>bldrBox := bldrBox u @ filter (\<lambda>l. trim l \<noteq> [] \<or> l = []) (split_on CHR 0x0A text)\<rparr>"

text \<open>
  \<^verbatim>\<open>console.log\<close> and \<^verbatim>\<open>console.error\<close>. Before line 81 they are the runtime's and
  write to the terminal. In watch mode they are replaced by functions that call
  \<^verbatim>\<open>state.ui?.logToBldr(...)\<close>: with a display the text goes to the bldr box, without one
  the call does nothing. Nothing in the sources puts the runtime's functions back.
\<close>

definition console_log :: "string \<Rightarrow> world \<Rightarrow> world" where
  "console_log text w =
     (if console_routed w then
        (case ui w of
           None \<Rightarrow> w
         | Some u \<Rightarrow> w\<lparr>ui := Some (logToBldr u text)\<rparr>)
      else emit (Terminal text) w)"

definition console_error :: "string \<Rightarrow> world \<Rightarrow> world" where
  "console_error text w =
     (if console_routed w then
        (case ui w of
           None \<Rightarrow> w
         | Some u \<Rightarrow>
             w\<lparr>ui := Some (logToBldr u (''{red-fg}'' @ cross_mark @ '' '' @ text @ ''{/red-fg}''))\<rparr>)
      else emit (Terminal text) w)"

subsection \<open>Shutdown\<close>

text \<open>
  \<^verbatim>\<open>subprocess.kill(signal)\<close> of the runtime: when the process is still there the signal
  is delivered and the property \<^verbatim>\<open>killed\<close> becomes true (it says that a signal was sent,
  not that the process has ended); when the process is gone nothing happens. A process
  cannot survive \<^verbatim>\<open>SIGKILL\<close>.
\<close>

definition kill :: "signal \<Rightarrow> child \<Rightarrow> child" where
  "kill sig c =
     (if alive c
      then c\<lparr>killed := True, received := received c @ [sig], alive := (sig \<noteq> SIGKILL)\<rparr>
      else c)"

text \<open>
  What the surroundings decide during a shutdown: whether closing the watcher fails, and
  for each child the time in milliseconds after which it exits once asked to terminate
  (\<open>None\<close>: it does not exit by itself).
\<close>

record shutdown_env =
  close_error :: "string option"
  tsc_exit_after :: "nat option"
  alias_exit_after :: "nat option"

definition KILL_TIMEOUT_MS :: nat where
  "KILL_TIMEOUT_MS = 2000"

text \<open>
  \<^verbatim>\<open>killProcess(name, p)\<close>, first its synchronous part: for a process object that is there
  and whose \<^verbatim>\<open>killed\<close> is false, the message and \<^verbatim>\<open>p.kill()\<close>. The result tells whether the
  promise with the timer was created (otherwise \<^verbatim>\<open>Promise.resolve()\<close>).
\<close>

definition kill_request :: "string \<Rightarrow> child option \<Rightarrow> world \<Rightarrow> world \<times> child option \<times> bool" where
  "kill_request name p w =
     (case p of
        None \<Rightarrow> (w, None, False)
      | Some c \<Rightarrow>
          if \<not> killed c
          then (console_log (cycle_mark @ '' Killing '' @ name @ ''...'') w, Some (kill SIGTERM c), True)
          else (w, Some c, False))"

text \<open>
  The promise of \<^verbatim>\<open>killProcess\<close>: the \<^verbatim>\<open>exit\<close> event of a living process that ends before
  the timer resolves it; otherwise the timer fires, runs
  \<^verbatim>\<open>if (!p.killed) p.kill("SIGKILL")\<close> and resolves it. The second component is the time
  until the promise is resolved.
\<close>

definition on_timeout :: "child \<Rightarrow> child \<times> nat" where
  "on_timeout c = ((if \<not> killed c then kill SIGKILL c else c), KILL_TIMEOUT_MS)"

definition kill_wait :: "nat option \<Rightarrow> child \<Rightarrow> child \<times> nat" where
  "kill_wait exit_after c =
     (case exit_after of
        None \<Rightarrow> on_timeout c
      | Some d \<Rightarrow>
          if alive c \<and> d < KILL_TIMEOUT_MS then (c\<lparr>alive := False\<rparr>, d) else on_timeout c)"

definition kill_settle :: "nat option \<Rightarrow> child option \<times> bool \<Rightarrow> child option \<times> nat" where
  "kill_settle exit_after pw =
     (case pw of
        (Some c, True) \<Rightarrow> (let (c', t) = kill_wait exit_after c in (Some c', t))
      | (p, _) \<Rightarrow> (p, 0))"

text \<open>Lines 31 to 39: the guard is outside; the flag, the display, the first message.\<close>

definition shutdown_begin :: "world \<Rightarrow> world" where
  "shutdown_begin w =
     (let w1 = w\<lparr>inProgress := True\<rparr>;
          w2 = (case ui w1 of
                  None \<Rightarrow> w1
                | Some u \<Rightarrow> (emit ScreenDestroyed w1)\<lparr>ui := None\<rparr>)
      in console_log (newline @ hourglass @ '' Shutting down...'') w2)"

text \<open>Lines 41 to 48: the watcher.\<close>

definition shutdown_close_watcher :: "shutdown_env \<Rightarrow> world \<Rightarrow> world" where
  "shutdown_close_watcher env w =
     (case watcher_open w of
        None \<Rightarrow> console_log (check_mark @ '' Src watcher closed'') w
      | Some b \<Rightarrow>
          (case close_error env of
             None \<Rightarrow>
               console_log (check_mark @ '' Src watcher closed'')
                 ((emit WatcherClosed w)\<lparr>watcher_open := Some False\<rparr>)
           | Some e \<Rightarrow> console_error (cross_mark @ '' Error closing src watcher: '' @ e) w))"

text \<open>
  Line 68: both calls of \<^verbatim>\<open>killProcess\<close> run their synchronous part, one after the other,
  before \<^verbatim>\<open>Promise.all\<close> waits for the two promises together; the wait lasts as long as
  the longer of the two.
\<close>

definition shutdown_kill :: "shutdown_env \<Rightarrow> world \<Rightarrow> world" where
  "shutdown_kill env w =
     (let (w1, p1, wait1) = kill_request ''tsc'' (tsc_proc w) w;
          (w2, p2, wait2) = kill_request ''tsc-alias'' (alias_proc w1) w1;
          (p1', t1) = kill_settle (tsc_exit_after env) (p1, wait1);
          (p2', t2) = kill_settle (alias_exit_after env) (p2, wait2)
      in w2\<lparr>tsc_proc := p1', alias_proc := p2', waited_ms := waited_ms w2 + max t1 t2\<rparr>)"

text \<open>Lines 70 and 71.\<close>

definition shutdown_finish :: "nat \<Rightarrow> world \<Rightarrow> world" where
  "shutdown_finish code w =
     (emit (ProcessExit code) (console_log (check_mark @ '' All processes cleaned up'') w))
       \<lparr>exit_code := Some code\<rparr>"

definition shutdown :: "nat \<Rightarrow> shutdown_env \<Rightarrow> world \<Rightarrow> world" where
  "shutdown code env w =
     (if inProgress w then w
      else shutdown_finish code (shutdown_kill env (shutdown_close_watcher env (shutdown_begin w))))"

text \<open>
  What starts a shutdown: the signals (lines 75 and 76), the exit keys of the display
  (line 79; the display only reacts while it exists) and the \<^verbatim>\<open>exit\<close> event of a child
  with handlers attached, when its code is neither 0 nor \<^verbatim>\<open>null\<close> (lines 158 to 165).
\<close>

datatype trigger =
    GotSIGINT
  | GotSIGTERM
  | ExitKey
  | TscExited "nat option"
  | AliasExited "nat option"

definition on_child_exit :: "string \<Rightarrow> child option \<Rightarrow> nat option \<Rightarrow> shutdown_env \<Rightarrow> world \<Rightarrow> world" where
  "on_child_exit name p code env w =
     (case (p, code) of
        (Some c, Some n) \<Rightarrow>
          if piped c \<and> n \<noteq> 0
          then shutdown n env
                 (console_error (cross_mark @ '' '' @ name @ '' exited with code '' @ show_nat n) w)
          else w
      | _ \<Rightarrow> w)"

fun handle :: "trigger \<Rightarrow> shutdown_env \<Rightarrow> world \<Rightarrow> world" where
  "handle GotSIGINT env w = shutdown 0 env w"
| "handle GotSIGTERM env w = shutdown 0 env w"
| "handle ExitKey env w = (if ui w = None then w else shutdown 0 env w)"
| "handle (TscExited code) env w =
     on_child_exit ''tsc''
       (map_option (\<lambda>c. c\<lparr>alive := False\<rparr>) (tsc_proc w)) code env
       (w\<lparr>tsc_proc := map_option (\<lambda>c. c\<lparr>alive := False\<rparr>) (tsc_proc w)\<rparr>)"
| "handle (AliasExited code) env w =
     on_child_exit ''tsc-alias''
       (map_option (\<lambda>c. c\<lparr>alive := False\<rparr>) (alias_proc w)) code env
       (w\<lparr>alias_proc := map_option (\<lambda>c. c\<lparr>alive := False\<rparr>) (alias_proc w)\<rparr>)"

subsection \<open>The build\<close>

text \<open>
  The configuration after lines 9 to 25: the working directory, the path of the
  configuration file and the two absolute roots. Reading the configuration is the work
  of the compiler's library.
\<close>

record config =
  cwd :: string
  tsconfigPath :: string
  rootDirAbs :: string
  outDirAbs :: string

text \<open>What the surroundings decide during the build: the two removals and the two runs.\<close>

record build_env =
  clean_rm :: "rm_failure option"
  tsc_run :: run_outcome
  alias_run :: run_outcome
  cleanup_rm :: "rm_failure option"

definition rel :: "string \<Rightarrow> string \<Rightarrow> string" where
  "rel from to = (let r = path_relative from from to in if startsWith r ''.'' then r else ''./'' @ r)"

definition banner :: "Args \<Rightarrow> config \<Rightarrow> string" where
  "banner args cfg =
     join_with newline
       [newline @ package_mark @ '' Project  : '' @ rel (cwd cfg) (tsconfigPath cfg),
        folder_mark @ '' Root Dir : '' @ rel (cwd cfg) (rootDirAbs cfg),
        folder_mark @ '' Out Dir  : '' @ rel (cwd cfg) (outDirAbs cfg),
        arrow_mark @ ''  Mode     : '' @ (if watch args then ''Watch'' else ''Build'') @ newline]"

definition tscArgs :: "config \<Rightarrow> string list" where
  "tscArgs cfg = [''-p'', tsconfigPath cfg, ''--pretty'']"

definition aliasArgs :: "config \<Rightarrow> string list" where
  "aliasArgs cfg = [''-p'', tsconfigPath cfg]"

text \<open>\<^verbatim>\<open>await run(...)\<close>: the process runs, writes its files, and the promise settles.\<close>

definition run_step :: "string \<Rightarrow> string list \<Rightarrow> run_outcome \<Rightarrow> world \<Rightarrow> (string + unit) \<times> world" where
  "run_step command args outcome w =
     (run command args outcome,
      (emit (Ran command args) w)\<lparr>files := files w \<union> set (written_by outcome)\<rparr>)"

text \<open>The compiler, then the alias resolver; the second is not started when the first fails.\<close>

definition run_both :: "config \<Rightarrow> build_env \<Rightarrow> world \<Rightarrow> (string + unit) \<times> world" where
  "run_both cfg env w =
     (case run_step ''tsc'' (tscArgs cfg) (tsc_run env) w of
        (Inl e, w1) \<Rightarrow> (Inl e, w1)
      | (Inr u, w1) \<Rightarrow> run_step ''tsc-alias'' (aliasArgs cfg) (alias_run env) w1)"

text \<open>Lines 106 to 119: the one-shot build.\<close>

definition build_once :: "config \<Rightarrow> build_env \<Rightarrow> world \<Rightarrow> (string + unit) \<times> world" where
  "build_once cfg env w =
     (case run_both cfg env (console_log (newline @ package_mark @ '' Starting build...'') w) of
        (Inr u, w1) \<Rightarrow> (Inr (), console_log (check_mark @ '' Build completed successfully!'') w1)
      | (Inl e, w1) \<Rightarrow>
          (let w2 = console_error (cross_mark @ '' Build failed, cleaning output directory...'') w1 in
           case rmIfExists (outDirAbs cfg) (cleanup_rm env) (files w2) of
             Inl e' \<Rightarrow> (Inl e', w2)
           | Inr fs \<Rightarrow> (Inl e, w2\<lparr>files := fs\<rparr>)))"

definition spawnLongRunning :: "string \<Rightarrow> string list \<Rightarrow> child" where
  "spawnLongRunning command args =
     \<lparr>cmd = command, cmd_args = args, alive = True, killed = False, received = [], piped = False\<rparr>"

text \<open>Lines 121 to 182: the first pass of watch mode and the start of the watch session.\<close>

definition build_watch :: "config \<Rightarrow> build_env \<Rightarrow> world \<Rightarrow> (string + unit) \<times> world" where
  "build_watch cfg env w =
     (let (r, w1) = run_both cfg env (console_log (newline @ package_mark @ '' Starting initial build...'') w);
          w2 = (case r of
                  Inr u \<Rightarrow> console_log (check_mark @ '' Initial build completed'') w1
                | Inl e \<Rightarrow>
                    (case ui w1 of
                       None \<Rightarrow> w1
                     | Some u \<Rightarrow>
                         w1\<lparr>ui := Some (u\<lparr>tscBox := tscBox u @
                               [cross_mark @ '' Initial build failed: '' @ e @ ''{/red-fg}'']\<rparr>)\<rparr>));
          w3 = (emit (Spawned ''tsc'' (tscArgs cfg @ [''-w'']))
                  w2)\<lparr>tsc_proc := Some (spawnLongRunning ''tsc'' (tscArgs cfg @ [''-w'']))\<rparr>;
          w4 = (emit (Spawned ''tsc-alias'' (aliasArgs cfg @ [''-w'']))
                  w3)\<lparr>alias_proc := Some (spawnLongRunning ''tsc-alias'' (aliasArgs cfg @ [''-w'']))\<rparr>;
          w5 = (if ui w4 = None then w4
                else w4\<lparr>tsc_proc := map_option (\<lambda>c. c\<lparr>piped := True\<rparr>) (tsc_proc w4),
                        alias_proc := map_option (\<lambda>c. c\<lparr>piped := True\<rparr>) (alias_proc w4)\<rparr>);
          w6 = (emit (WatcherStarted (rootDirAbs cfg)) w5)\<lparr>watcher_open := Some True\<rparr>
      in (Inr (), w6))"

text \<open>Lines 78 to 104, then one of the two modes.\<close>

definition empty_ui :: ui_state where
  "empty_ui = \<lparr>bldrBox = [], tscBox = [], aliasBox = []\<rparr>"

definition build :: "Args \<Rightarrow> config \<Rightarrow> build_env \<Rightarrow> world \<Rightarrow> (string + unit) \<times> world" where
  "build args cfg env w =
     (let w1 = (if watch args
                then (emit ScreenCreated w)\<lparr>ui := Some empty_ui, console_routed := True\<rparr>
                else w);
          w2 = console_log (banner args cfg) w1;
          w3 = console_log (package_mark @ '' Cleaning output directory...'') w2
      in case rmIfExists (outDirAbs cfg) (clean_rm env) (files w3) of
           Inl e \<Rightarrow> (Inl e, w3)
         | Inr fs \<Rightarrow>
             (let w4 = console_log (check_mark @ '' Output directory cleaned'') (w3\<lparr>files := fs\<rparr>) in
              if \<not> watch args then build_once cfg env w4 else build_watch cfg env w4))"

subsection \<open>Observations and a sample project\<close>

text \<open>
  What a shutdown does to the world apart from writing lines: the effects other than
  terminal lines, the flag, the exit code, the watcher, the time waited and the signals
  the two children have received.
\<close>

definition teardown_view :: "world \<Rightarrow> effect list \<times> bool \<times> nat option \<times> bool option \<times> nat
    \<times> signal list option \<times> signal list option" where
  "teardown_view w =
     (filter (\<lambda>e. \<not> is_terminal e) (effects w), inProgress w, exit_code w, watcher_open w,
      waited_ms w, map_option received (tsc_proc w), map_option received (alias_proc w))"

definition sample_config :: config where
  "sample_config =
     \<lparr>cwd = ''/proj'', tsconfigPath = ''/proj/tsconfig.json'', rootDirAbs = ''/proj/src'',
      outDirAbs = ''/proj/dist''\<rparr>"

text \<open>A compiler that writes one file, prints a diagnostic and exits with code 2.\<close>

definition failing_compiler :: build_env where
  "failing_compiler =
     \<lparr>clean_rm = None,
      tsc_run = Exited (Some 2) [(FromStdout, ''error TS1: bad''), (FromStderr, newline)]
                  [''/proj/dist/a.js''],
      alias_run = Exited (Some 0) [] [],
      cleanup_rm = None\<rparr>"

text \<open>
  A compiler that exits with code 2 after printing nothing but a no-break space (U+00A0)
  and a line feed.
\<close>

definition blank_compiler :: build_env where
  "blank_compiler =
     failing_compiler\<lparr>tsc_run := Exited (Some 2) [(FromStderr, [CHR 0xC2, CHR 0xA0, CHR 0x0A])] []\<rparr>"

text \<open>The failing compiler, in a project whose output directory cannot be removed afterwards.\<close>

definition locked_output :: build_env where
  "locked_output = failing_compiler\<lparr>cleanup_rm := Some (RmError ''EACCES'')\<rparr>"

text \<open>A compiler in watch mode that ignores the request to terminate.\<close>

definition stubborn_compiler :: shutdown_env where
  "stubborn_compiler = \<lparr>close_error = None, tsc_exit_after = None, alias_exit_after = Some 10\<rparr>"

definition one_shot :: Args where
  "one_shot = \<lparr>watch = False, project = None\<rparr>"

definition watching :: Args where
  "watching = \<lparr>watch = True, project = None\<rparr>"

section \<open>The operation queue (core/builder.ts, lines 184 to 198)\<close>

text \<open>
  The program runs on one thread: a call of \<^verbatim>\<open>queuedOperation\<close> runs until its next
  \<^verbatim>\<open>await\<close>, and goes on when the promise it waits for is settled. Each call gets a
  number. A call is in one of these places:
  \<^item> \<open>Entered\<close>: before line 188 (also the state of the numbers not used yet);
  \<^item> \<open>AwaitExisting j\<close>: suspended in line 189 on the promise that call \<open>j\<close> stored;
  \<^item> \<open>AwaitRace ps\<close>: suspended in line 192 on \<^verbatim>\<open>Promise.race\<close> of the promises \<open>ps\<close>;
  \<^item> \<open>Running\<close>: past line 195, its operation has been started and has not settled;
  \<^item> \<open>Settled r\<close>: its operation has settled with \<open>r\<close>;
  \<^item> \<open>Rejected e\<close>: the call threw \<open>e\<close> at one of its two \<^verbatim>\<open>await\<close>s; its operation was
    never started.
  The promise a call stores in line 196 is named by the number of the call.
\<close>

datatype settlement = Fulfilled | Failed string

datatype call_status =
    Entered
  | AwaitExisting nat
  | AwaitRace "nat list"
  | Running
  | Settled settlement
  | Rejected string

text \<open>
  The state: the number of calls so far, the key of each call, the place of each call,
  the map \<^verbatim>\<open>operationQueue\<close> from keys to promises (in insertion order, as a JavaScript
  \<^verbatim>\<open>Map\<close> keeps it), and the suspended calls in the order in which they began to wait,
  which is the order in which the reactions of a promise run.
\<close>

record queue_state =
  next_call :: nat
  call_key :: "nat \<Rightarrow> string"
  status :: "nat \<Rightarrow> call_status"
  operationQueue :: "(string \<times> nat) list"
  suspended :: "nat list"

definition empty_queue :: queue_state where
  "empty_queue =
     \<lparr>next_call = 0, call_key = (\<lambda>i. []), status = (\<lambda>i. Entered), operationQueue = [],
      suspended = []\<rparr>"

definition MAX_CONCURRENT_OPERATIONS :: nat where
  "MAX_CONCURRENT_OPERATIONS = 10"

text \<open>
  Lines 191 to 197, run without interruption: while the map holds ten entries or more the
  call suspends on the race of the promises now in the map; otherwise it starts its
  operation and stores the promise under its key, replacing whatever is stored there.
\<close>

definition start_or_wait :: "nat \<Rightarrow> queue_state \<Rightarrow> queue_state" where
  "start_or_wait i q =
     (if MAX_CONCURRENT_OPERATIONS \<le> length (operationQueue q)
      then q\<lparr>status := (status q)(i := AwaitRace (map snd (operationQueue q))),
             suspended := suspended q @ [i]\<rparr>
      else q\<lparr>status := (status q)(i := Running),
             operationQueue := AList.update (call_key q i) i (operationQueue q)\<rparr>)"

text \<open>A call \<^verbatim>\<open>queuedOperation(key, operation)\<close>, up to its first suspension or its return.\<close>

definition queuedOperation :: "string \<Rightarrow> queue_state \<Rightarrow> queue_state" where
  "queuedOperation k q =
     (let i = next_call q;
          q1 = q\<lparr>next_call := Suc i, call_key := (call_key q)(i := k)\<rparr>
      in case map_of (operationQueue q1) k of
           Some j \<Rightarrow> q1\<lparr>status := (status q1)(i := AwaitExisting j), suspended := suspended q1 @ [i]\<rparr>
         | None \<Rightarrow> start_or_wait i q1)"

text \<open>
  A suspended call goes on when the promise it waits for is settled: a rejection is
  thrown by the \<^verbatim>\<open>await\<close> and ends the call, a fulfilment takes it to line 191.
\<close>

definition resume :: "settlement \<Rightarrow> nat \<Rightarrow> queue_state \<Rightarrow> queue_state" where
  "resume r j q =
     (case r of
        Fulfilled \<Rightarrow> start_or_wait j q
      | Failed e \<Rightarrow> q\<lparr>status := (status q)(j := Rejected e)\<rparr>)"

fun races_on :: "nat \<Rightarrow> call_status \<Rightarrow> bool" where
  "races_on i (AwaitRace ps) = (i \<in> set ps)"
| "races_on i _ = False"

text \<open>
  The operation of call \<open>i\<close> settles. The callback of \<^verbatim>\<open>finally\<close> deletes the key of the
  call from the map, whichever promise is stored under it. Then the promise of the call
  is settled and its reactions run: first the calls suspended on it in line 189, then
  the calls whose race it decides, each group in the order in which the calls began to
  wait.
\<close>

definition woken :: "nat \<Rightarrow> queue_state \<Rightarrow> nat list" where
  "woken i q =
     filter (\<lambda>j. status q j = AwaitExisting i) (suspended q)
     @ filter (\<lambda>j. races_on i (status q j)) (suspended q)"

definition settle :: "nat \<Rightarrow> settlement \<Rightarrow> queue_state \<Rightarrow> queue_state" where
  "settle i r q =
     (if status q i = Running then
        (let q1 = q\<lparr>status := (status q)(i := Settled r),
                    operationQueue := AList.delete (call_key q i) (operationQueue q)\<rparr>;
             js = woken i q1;
             q2 = q1\<lparr>suspended := filter (\<lambda>j. j \<notin> set js) (suspended q1)\<rparr>
         in fold (resume r) js q2)
      else q)"

text \<open>
  What happens to the queue: a call (the handler of an \<^verbatim>\<open>unlink\<close> event makes one with
  the path as key) or the settling of a running operation.
\<close>

datatype queue_event = Enqueue string | Settle nat settlement

fun queue_step :: "queue_event \<Rightarrow> queue_state \<Rightarrow> queue_state" where
  "queue_step (Enqueue k) q = queuedOperation k q"
| "queue_step (Settle i r) q = settle i r q"

definition run_queue :: "queue_event list \<Rightarrow> queue_state \<Rightarrow> queue_state" where
  "run_queue evs q = fold queue_step evs q"

text \<open>The calls whose operation is executing, and the places of all calls so far.\<close>

definition running :: "queue_state \<Rightarrow> nat list" where
  "running q = filter (\<lambda>i. status q i = Running) [0..<next_call q]"

definition statuses :: "queue_state \<Rightarrow> call_status list" where
  "statuses q = map (status q) [0..<next_call q]"

fun enqueued_keys :: "queue_event list \<Rightarrow> string list" where
  "enqueued_keys [] = []"
| "enqueued_keys (Enqueue k # evs) = k # enqueued_keys evs"
| "enqueued_keys (Settle i r # evs) = enqueued_keys evs"

text \<open>
  What holds of every state the queue can reach: every entry of the map names a running
  call of that key; the list of suspended calls has no repetition and names calls that
  were made; a number not used yet is in its initial place.
\<close>

definition queue_ok :: "queue_state \<Rightarrow> bool" where
  "queue_ok q =
     ((\<forall>(k, i) \<in> set (operationQueue q). i < next_call q \<and> status q i = Running \<and> call_key q i = k)
      \<and> distinct (suspended q)
      \<and> (\<forall>x \<in> set (suspended q). x < next_call q)
      \<and> (\<forall>x. next_call q \<le> x \<longrightarrow> status q x = Entered))"

text \<open>
  What holds in addition when all calls so far have different keys. \<open>ceiling_mid js q\<close> is
  the state while the calls \<open>js\<close> that a settled promise woke have not gone on yet; with
  no such call it is \<open>ceiling_ok q\<close>:
  \<^item> every running call has its entry in the map, the keys of the map are different and
    the map holds at most ten entries;
  \<^item> no call waits in line 189;
  \<^item> a call waiting in line 192 is in the list of suspended calls, and the promises it
    races are those of running calls, at least one.
\<close>

definition ceiling_mid :: "nat list \<Rightarrow> queue_state \<Rightarrow> bool" where
  "ceiling_mid js q =
     (queue_ok q
      \<and> distinct (map (call_key q) [0..<next_call q])
      \<and> (\<forall>i < next_call q. status q i = Running \<longrightarrow> (call_key q i, i) \<in> set (operationQueue q))
      \<and> distinct (map fst (operationQueue q))
      \<and> length (operationQueue q) \<le> MAX_CONCURRENT_OPERATIONS
      \<and> (\<forall>i < next_call q. (\<forall>j. status q i \<noteq> AwaitExisting j) \<and> (status q i = Entered \<longrightarrow> i \<in> set js))
      \<and> (\<forall>i < next_call q. \<forall>ps. status q i = AwaitRace ps \<longrightarrow>
            i \<in> set js \<or>
            (i \<in> set (suspended q) \<and> ps \<noteq> [] \<and> (\<forall>p \<in> set ps. p < next_call q \<and> status q p = Running)))
      \<and> distinct js
      \<and> (\<forall>j \<in> set js. j < next_call q \<and> status q j \<noteq> Running \<and> j \<notin> set (suspended q)))"

definition ceiling_ok :: "queue_state \<Rightarrow> bool" where
  "ceiling_ok q = ceiling_mid [] q"

text \<open>
  A call is over when its operation has settled, with success or with failure, or when
  the call has been rejected. It is lost when its operation has failed or the call has
  been rejected.
\<close>

fun over :: "call_status \<Rightarrow> bool" where
  "over (Settled r) = True"
| "over (Rejected e) = True"
| "over _ = False"

fun lost :: "call_status \<Rightarrow> bool" where
  "lost (Settled (Failed e)) = True"
| "lost (Rejected e) = True"
| "lost _ = False"

definition unfinished :: "queue_state \<Rightarrow> nat set" where
  "unfinished q = {i. i < next_call q \<and> \<not> over (status q i)}"

text \<open>
  The surroundings let the running operations settle, one at a time: \<open>pick\<close> chooses
  which one settles next and whether it succeeds or fails, until nothing runs any more or
  \<open>n\<close> of them have settled.
\<close>

fun drain :: "(queue_state \<Rightarrow> nat \<times> settlement) \<Rightarrow> nat \<Rightarrow> queue_state \<Rightarrow> queue_state" where
  "drain pick 0 q = q"
| "drain pick (Suc n) q =
     (if running q = [] then q else drain pick n (settle (fst (pick q)) (snd (pick q)) q))"

text \<open>Eleven deleted files, one more than the ceiling.\<close>

definition eleven_paths :: "queue_event list" where
  "eleven_paths = map (\<lambda>c. Enqueue [c]) ''0123456789a''"

text \<open>The first of the eleven removals fails, the nine others that run complete.\<close>

definition first_removal_fails :: "queue_event list" where
  "first_removal_fails =
     eleven_paths @ [Settle 0 (Failed ''EACCES''), Settle 1 Fulfilled, Settle 2 Fulfilled,
       Settle 3 Fulfilled, Settle 4 Fulfilled, Settle 5 Fulfilled, Settle 6 Fulfilled,
       Settle 7 Fulfilled, Settle 8 Fulfilled, Settle 9 Fulfilled]"

section \<open>Properties of the argument parser\<close>

lemma option_starts_dash: "is_option a \<Longrightarrow> startsWith a ''-''"
  by (auto simp: is_option_def is_watch_flag_def is_project_flag_def is_help_flag_def startsWith_def)

lemma option_not_path_value: "is_option a \<Longrightarrow> \<not> is_path_value a"
  by (simp add: is_path_value_def option_starts_dash)

lemma project_flag_is_option: "is_project_flag a \<Longrightarrow> is_option a"
  by (simp add: is_option_def)

lemma flags_exclusive:
  "is_watch_flag a \<Longrightarrow> \<not> is_project_flag a"
  "is_watch_flag a \<Longrightarrow> \<not> is_help_flag a"
  "is_project_flag a \<Longrightarrow> \<not> is_help_flag a"
  by (auto simp: is_watch_flag_def is_project_flag_def is_help_flag_def)

lemma parseArgs_loop_remaining:
  "\<forall>p. \<not> is_project_flag p \<longrightarrow>
     parseArgs_loop args
       (map snd (filter (\<lambda>(before, a). is_option a \<or> is_project_flag before) (zip (p # argv) argv)))
     = parseArgs_loop args argv"
proof (induction args argv rule: parseArgs_loop.induct)
  case (1 args)
  show ?case by simp
next
  case (2 args a rest)
  show ?case
  proof (intro allI impI)
    fix p
    assume np: "\<not> is_project_flag p"
    let ?K = "\<lambda>(before, a). is_option a \<or> is_project_flag before"
    show "parseArgs_loop args (map snd (filter ?K (zip (p # a # rest) (a # rest))))
          = parseArgs_loop args (a # rest)"
    proof (cases "is_watch_flag a")
      case True
      then have "\<not> is_project_flag a" by (simp add: flags_exclusive)
      then show ?thesis using True 2(1) [OF True] by (simp add: is_option_def)
    next
      case nw: False
      show ?thesis
      proof (cases "is_project_flag a")
        case pf: True
        show ?thesis
        proof (cases rest)
          case Nil
          then show ?thesis using nw pf by (simp add: is_option_def)
        next
          case (Cons nxt rest')
          show ?thesis
          proof (cases "is_path_value nxt")
            case True
            then have "\<not> is_project_flag nxt"
              using option_not_path_value project_flag_is_option by blast
            then show ?thesis using nw pf Cons True 2(2) [OF nw pf Cons True]
              by (simp add: is_option_def)
          next
            case False
            then show ?thesis using nw pf Cons by (simp add: is_option_def)
          qed
        qed
      next
        case npf: False
        show ?thesis
        proof (cases "is_help_flag a")
          case True
          then show ?thesis using nw npf by (simp add: is_option_def)
        next
          case False
          then show ?thesis using nw npf np 2(3) [OF nw npf False] by (simp add: is_option_def)
        qed
      qed
    qed
  qed
qed

lemma parseArgs_remaining: "parseArgs (remaining_args argv) = parseArgs argv"
proof -
  have "\<not> is_project_flag []" by (simp add: is_project_flag_def)
  then show ?thesis
    using parseArgs_loop_remaining [of "\<lparr>watch = False, project = None\<rparr>" argv]
    by (simp add: parseArgs_def remaining_args_def)
qed

lemma parseArgs_loop_threw:
  "parseArgs_loop args argv = Threw m \<Longrightarrow>
   m = project_usage_error \<and> (\<exists>a \<in> set argv. is_project_flag a)"
proof (induction args argv rule: parseArgs_loop.induct)
  case (1 args)
  then show ?case by simp
next
  case (2 args a rest)
  show ?case
  proof (cases "is_watch_flag a")
    case True
    then show ?thesis using 2(1) 2(4) by auto
  next
    case nw: False
    show ?thesis
    proof (cases "is_project_flag a")
      case p: True
      show ?thesis
      proof (cases rest)
        case Nil
        then show ?thesis using nw p 2(4) by auto
      next
        case (Cons nxt rest')
        show ?thesis
        proof (cases "is_path_value nxt")
          case True
          then show ?thesis using nw p Cons 2(4) 2(2) [OF nw p Cons True] by auto
        next
          case False
          then show ?thesis using nw p Cons 2(4) by auto
        qed
      qed
    next
      case np: False
      show ?thesis
      proof (cases "is_help_flag a")
        case True
        then show ?thesis using nw np 2(4) by simp
      next
        case False
        then show ?thesis using nw np 2(3) 2(4) by auto
      qed
    qed
  qed
qed

lemma parseArgs_loop_reaches_project:
  assumes "\<forall>x \<in> set pre. \<not> is_project_flag x \<and> \<not> is_help_flag x" and "is_project_flag a"
  shows "parseArgs_loop args (pre @ a # nxt # rest)
         = (if is_path_value nxt
            then parseArgs_loop \<lparr>watch = watch args \<or> (\<exists>x \<in> set pre. is_watch_flag x),
                                 project = Some nxt\<rparr> rest
            else Threw project_usage_error)"
  using assms(1)
proof (induction pre arbitrary: args)
  case Nil
  have "\<not> is_watch_flag a" using assms(2) flags_exclusive(1) by blast
  then show ?case using assms(2) by (cases args) simp
next
  case (Cons x pre)
  then have x: "\<not> is_project_flag x" "\<not> is_help_flag x"
    and r: "\<forall>x \<in> set pre. \<not> is_project_flag x \<and> \<not> is_help_flag x" by simp_all
  show ?case
  proof (cases "is_watch_flag x")
    case True
    then show ?thesis using Cons.IH [OF r, of "args\<lparr>watch := True\<rparr>"] by simp
  next
    case False
    then show ?thesis using x Cons.IH [OF r, of args] by simp
  qed
qed

text \<open>
  Claim C10, with the argument directly after \<^verbatim>\<open>-p\<close>/\<^verbatim>\<open>--project\<close> excepted. For every
  argument vector, an argument that is none of the options \<^verbatim>\<open>-w\<close>/\<^verbatim>\<open>--watch\<close>,
  \<^verbatim>\<open>-p\<close>/\<^verbatim>\<open>--project\<close>, \<^verbatim>\<open>-h\<close>/\<^verbatim>\<open>--help\<close> and does not stand directly after
  \<^verbatim>\<open>-p\<close>/\<^verbatim>\<open>--project\<close> is skipped without any effect: the outcome of the parser (the
  returned arguments, the usage error of \<^verbatim>\<open>-p\<close>, or the exit after the help text) is the
  outcome on the vector with all these arguments removed. The argument directly after
  \<^verbatim>\<open>-p\<close>/\<^verbatim>\<open>--project\<close> is not skipped: when the parser comes to the first
  \<^verbatim>\<open>-p\<close>/\<^verbatim>\<open>--project\<close>, with no \<^verbatim>\<open>-h\<close>/\<^verbatim>\<open>--help\<close> before it, it takes the argument after
  it as the project path and goes on behind it, or, when that argument is empty or starts
  with \<^verbatim>\<open>-\<close>, throws the usage error. The only error the parser throws is the usage error
  of \<^verbatim>\<open>-p\<close>/\<^verbatim>\<open>--project\<close>, and only when that option is among the arguments.
\<close>

theorem parseArgs_skips_unrecognized:
  "parseArgs argv = parseArgs (remaining_args argv)
   \<and> ((\<forall>x \<in> set pre. \<not> is_project_flag x \<and> \<not> is_help_flag x) \<and> is_project_flag a \<longrightarrow>
        parseArgs (pre @ a # nxt # rest)
          = (if is_path_value nxt
             then parseArgs_loop \<lparr>watch = (\<exists>x \<in> set pre. is_watch_flag x), project = Some nxt\<rparr> rest
             else Threw project_usage_error))
   \<and> (parseArgs argv = Threw m \<longrightarrow>
        m = project_usage_error \<and> (\<exists>a \<in> set argv. is_project_flag a))"
  using parseArgs_remaining [of argv]
    parseArgs_loop_threw [of "\<lparr>watch = False, project = None\<rparr>" argv m]
    parseArgs_loop_reaches_project [of pre a "\<lparr>watch = False, project = None\<rparr>" nxt rest]
  by (simp add: parseArgs_def)

theorem parseArgs_skips_unrecognized_witness:
  "parseArgs [''--verbose'', ''-p'', ''cfg.json'', ''extra'', ''-w'']
     = Returned \<lparr>watch = True, project = Some ''cfg.json''\<rparr>
   \<and> remaining_args [''--verbose'', ''-p'', ''cfg.json'', ''extra'', ''-w'']
     = [''-p'', ''cfg.json'', ''-w'']
   \<and> parseArgs ([''-w'', ''extra''] @ ''--project'' # ''--verbose'' # [''cfg.json''])
     = Threw project_usage_error"
proof -
  have 1: "parseArgs [''--verbose'', ''-p'', ''cfg.json'', ''extra'', ''-w'']
             = Returned \<lparr>watch = True, project = Some ''cfg.json''\<rparr>
           \<and> remaining_args [''--verbose'', ''-p'', ''cfg.json'', ''extra'', ''-w'']
             = [''-p'', ''cfg.json'', ''-w'']"
    using parseArgs_skips_unrecognized
      [of "[''--verbose'', ''-p'', ''cfg.json'', ''extra'', ''-w'']", THEN conjunct1]
    by (simp add: parseArgs_def remaining_args_def is_option_def is_watch_flag_def
        is_project_flag_def is_help_flag_def is_path_value_def startsWith_def)
  have h: "(\<forall>x \<in> set [''-w'', ''extra'']. \<not> is_project_flag x \<and> \<not> is_help_flag x)
           \<and> is_project_flag ''--project''"
    by (simp add: is_project_flag_def is_help_flag_def)
  have n: "\<not> is_path_value ''--verbose''" by (simp add: is_path_value_def startsWith_def)
  have 2: "parseArgs ([''-w'', ''extra''] @ ''--project'' # ''--verbose'' # [''cfg.json''])
             = Threw project_usage_error"
    using parseArgs_skips_unrecognized
      [of _ "[''-w'', ''extra'']" "''--project''" "''--verbose''" "[''cfg.json'']",
       THEN conjunct2, THEN conjunct1, THEN mp, OF h] n
    by (simp only: if_False)
  from 1 2 show ?thesis by (intro conjI) simp_all
qed

text \<open>
  Claim C10 as first stated fails for an argument directly after \<^verbatim>\<open>-p\<close>/\<^verbatim>\<open>--project\<close>: an
  unknown flag there is not skipped. It makes the parser throw the usage error, while the
  same vector without that flag is parsed.
\<close>

theorem unknown_flag_after_project_throws:
  "parseArgs [''-p'', ''--verbose'', ''cfg.json''] = Threw project_usage_error
   \<and> parseArgs [''-p'', ''cfg.json''] = Returned \<lparr>watch = False, project = Some ''cfg.json''\<rparr>"
  by (simp add: parseArgs_def is_watch_flag_def is_project_flag_def is_help_flag_def
      is_path_value_def startsWith_def)

section \<open>Properties of the path mapping\<close>

lemma split_on_nonempty: "split_on c xs \<noteq> []"
  by (induction xs) (auto split: list.splits)

lemma split_on_absent: "c \<notin> set s \<Longrightarrow> split_on c s = [s]"
  by (induction s) auto

lemma split_on_append: "c \<notin> set s \<Longrightarrow> split_on c (s @ c # rest) = s # split_on c rest"
  by (induction s) auto

lemma split_on_segments:
  "CHR ''/'' \<notin> set s \<Longrightarrow> \<forall>t \<in> set ss. CHR ''/'' \<notin> set t \<Longrightarrow>
   split_on CHR ''/'' (s @ concat (map (\<lambda>t. CHR ''/'' # t) ss)) = s # ss"
  by (induction ss arbitrary: s) (simp_all add: split_on_absent split_on_append)

lemma normalize_segments_ok:
  "\<forall>s \<in> set segs. seg_ok s \<Longrightarrow> normalize_segments b acc segs = acc @ segs"
  by (induction segs arbitrary: acc) (auto simp: seg_ok_def)

lemma seg_ok_no_slash: "seg_ok s \<Longrightarrow> CHR ''/'' \<notin> set s"
  by (simp add: seg_ok_def)

lemma resolve_segments_abs:
  assumes "\<forall>s \<in> set segs. seg_ok s"
  shows "resolve_segments wd (abs_path segs) = segs"
proof (cases segs)
  case Nil
  then show ?thesis
    by (simp add: resolve_segments_def abs_path_def isAbsolute_def startsWith_def)
next
  case (Cons a as)
  have ns: "\<forall>t \<in> set segs. CHR ''/'' \<notin> set t" using assms seg_ok_no_slash by blast
  have "split_on CHR ''/'' ([] @ concat (map (\<lambda>t. CHR ''/'' # t) segs)) = [] # segs"
    using ns by (intro split_on_segments) simp_all
  then have sp: "split_on CHR ''/'' (abs_path segs) = [] # segs"
    using Cons by (simp add: abs_path_def)
  have ab: "isAbsolute (abs_path segs)"
    using Cons by (simp add: abs_path_def isAbsolute_def startsWith_def)
  show ?thesis
    using ab sp normalize_segments_ok [OF assms, of False "[]"]
    by (simp add: resolve_segments_def)
qed

lemma common_prefix_len_append: "common_prefix_len xs (xs @ ys) = length xs"
  by (induction xs) auto

lemma path_relative_below:
  assumes "\<forall>s \<in> set (rs @ qs). seg_ok s" and "qs \<noteq> []"
  shows "path_relative wd (abs_path rs) (abs_path (rs @ qs)) = join_with ''/'' qs"
proof -
  have f: "resolve_segments wd (abs_path rs) = rs"
    using assms(1) by (intro resolve_segments_abs) simp
  have t: "resolve_segments wd (abs_path (rs @ qs)) = rs @ qs"
    using assms(1) by (intro resolve_segments_abs)
  have ne: "abs_path rs \<noteq> abs_path (rs @ qs)"
  proof
    assume "abs_path rs = abs_path (rs @ qs)"
    then have "resolve_segments wd (abs_path rs) = resolve_segments wd (abs_path (rs @ qs))"
      by simp
    then show False using f t assms(2) by simp
  qed
  show ?thesis
    using ne assms(2) by (simp add: path_relative_def f t common_prefix_len_append Let_def)
qed

lemma sep_join: "qs \<noteq> [] \<Longrightarrow> sep @ join_with sep qs = concat (map (\<lambda>t. sep @ t) qs)"
  by (induction sep qs rule: join_with.induct) auto

lemma slash_join: "qs \<noteq> [] \<Longrightarrow> CHR ''/'' # join_with ''/'' qs = concat (map (\<lambda>t. CHR ''/'' # t) qs)"
  using sep_join [of qs "''/''"] by simp

lemma join_nonempty: "qs \<noteq> [] \<Longrightarrow> \<forall>s \<in> set qs. s \<noteq> [] \<Longrightarrow> join_with sep qs \<noteq> []"
  by (induction sep qs rule: join_with.induct) auto

lemma last_join:
  "qs \<noteq> [] \<Longrightarrow> \<forall>s \<in> set qs. s \<noteq> [] \<Longrightarrow> last (join_with sep qs) = last (last qs)"
proof (induction sep qs rule: join_with.induct)
  case (3 sep s t ts)
  then have "join_with sep (t # ts) \<noteq> []" by (intro join_nonempty) auto
  then show ?case using 3 by simp
qed auto

lemma path_join_below:
  assumes "\<forall>s \<in> set (os @ qs). seg_ok s" and "qs \<noteq> []"
  shows "path_join (abs_path os) (join_with ''/'' qs) = abs_path (os @ qs)"
proof -
  let ?rel = "join_with ''/'' qs"
  let ?p = "abs_path os @ ''/'' @ ?rel"
  have qne: "\<forall>s \<in> set qs. s \<noteq> []" using assms(1) by (auto simp: seg_ok_def)
  have relne: "?rel \<noteq> []" using join_nonempty [OF assms(2) qne] .
  have outne: "abs_path os \<noteq> []" by (cases os) (simp_all add: abs_path_def)
  have ns: "\<forall>t \<in> set (os @ qs). CHR ''/'' \<notin> set t" using assms(1) seg_ok_no_slash by blast
  have lastq: "last qs \<noteq> []" using assms(2) qne by simp
  have "last ?p = last ?rel" using relne by simp
  also have "\<dots> = last (last qs)" using last_join [OF assms(2) qne] .
  finally have notrail: "last ?p \<noteq> CHR ''/''"
    using lastq assms(2) ns by (metis Un_iff last_in_set set_append)
  have ab: "isAbsolute ?p"
    by (cases os) (simp_all add: abs_path_def isAbsolute_def startsWith_def)
  have sp: "normalize_segments False [] (split_on CHR ''/'' ?p) = os @ qs"
  proof (cases os)
    case Nil
    have "split_on CHR ''/'' ([] @ concat (map (\<lambda>t. CHR ''/'' # t) qs)) = [] # qs"
      using ns by (intro split_on_segments) simp_all
    then have "split_on CHR ''/'' ?p = [] # [] # qs"
      using Nil slash_join [OF assms(2)] by (simp add: abs_path_def)
    then show ?thesis
      using Nil normalize_segments_ok [of qs False "[]"] assms(1) by simp
  next
    case (Cons a as)
    have "?p = concat (map (\<lambda>t. CHR ''/'' # t) (os @ qs))"
      using Cons slash_join [OF assms(2)] by (simp add: abs_path_def)
    moreover have "split_on CHR ''/'' ([] @ concat (map (\<lambda>t. CHR ''/'' # t) (os @ qs))) = [] # os @ qs"
      using ns by (intro split_on_segments) simp_all
    ultimately have "split_on CHR ''/'' ?p = [] # os @ qs" by simp
    then show ?thesis
      using normalize_segments_ok [OF assms(1), of False "[]"] by simp
  qed
  have jne: "join_with ''/'' (os @ qs) \<noteq> []"
    using assms by (intro join_nonempty) (auto simp: seg_ok_def)
  have "path_normalize ?p = ''/'' @ join_with ''/'' (os @ qs)"
    using ab notrail sp jne by (simp add: path_normalize_def Let_def)
  also have "\<dots> = abs_path (os @ qs)"
    using slash_join [of "os @ qs"] assms(2) by (simp add: abs_path_def)
  finally show ?thesis
    using outne relne by (simp add: path_join_def Let_def)
qed

lemma toOutPath_below:
  assumes "\<forall>s \<in> set (rs @ os @ qs). seg_ok s" and "qs \<noteq> []"
  shows "toOutPath wd (abs_path rs) (abs_path os) (abs_path (rs @ qs)) = abs_path (os @ qs)"
proof -
  have 1: "\<forall>s \<in> set (rs @ qs). seg_ok s" and 2: "\<forall>s \<in> set (os @ qs). seg_ok s"
    using assms(1) by auto
  show ?thesis
    by (simp add: toOutPath_def path_relative_below [OF 1 assms(2)] path_join_below [OF 2 assms(2)])
qed

lemma lower_ascii_cases: "lower_ascii c = c \<or> (97 \<le> (of_char (lower_ascii c) :: nat))"
  by (auto simp: lower_ascii_def Let_def)

lemma lower_ascii_dot: "lower_ascii c = CHR ''.'' \<longleftrightarrow> c = CHR ''.''"
  using lower_ascii_cases [of c] by (auto simp: lower_ascii_def Let_def)

lemma lower_ascii_slash: "lower_ascii c = CHR ''/'' \<longleftrightarrow> c = CHR ''/''"
  using lower_ascii_cases [of c] by (auto simp: lower_ascii_def Let_def)

lemma extension_no_dot: "CHR ''.'' \<in> set ys \<Longrightarrow> map lower_ascii ys \<notin> set ts_extensions"
proof
  assume d: "CHR ''.'' \<in> set ys" and m: "map lower_ascii ys \<in> set ts_extensions"
  from d have "CHR ''.'' \<in> set (map lower_ascii ys)"
    using lower_ascii_dot by (metis image_eqI set_map)
  with m show False by (auto simp: ts_extensions_def)
qed

lemma extension_no_slash:
  assumes "map lower_ascii ext \<in> set ts_extensions"
  shows "CHR ''/'' \<notin> set ext"
proof
  assume "CHR ''/'' \<in> set ext"
  then have "CHR ''/'' \<in> set (map lower_ascii ext)"
    using lower_ascii_slash by (metis image_eqI set_map)
  with assms show False by (auto simp: ts_extensions_def)
qed

lemma extension_nonempty: "map lower_ascii ext \<in> set ts_extensions \<Longrightarrow> ext \<noteq> []"
  by (auto simp: ts_extensions_def)

lemma no_match_before_dot: "\<not> ext_matches_here c (xs @ CHR ''.'' # ext)"
  using extension_no_dot [of "xs @ CHR ''.'' # ext"] by (simp add: ext_matches_here_def)

lemma stripTsExt_suffix:
  "map lower_ascii ext \<in> set ts_extensions \<Longrightarrow> stripTsExt (xs @ CHR ''.'' # ext) = xs"
proof (induction xs)
  case Nil
  then show ?case by (simp add: ext_matches_here_def)
next
  case (Cons a xs)
  then show ?case using no_match_before_dot [of a xs ext] by simp
qed

lemma isTsLike_suffix:
  "map lower_ascii ext \<in> set ts_extensions \<Longrightarrow> isTsLike (xs @ CHR ''.'' # ext)"
  by (induction xs) (simp_all add: ext_matches_here_def)

lemma abs_path_snoc: "abs_path (xs @ [s @ t]) = abs_path (xs @ [s]) @ t"
  by (simp add: abs_path_def)

lemma source_file_seg_ok:
  assumes "CHR ''/'' \<notin> set stem" and "map lower_ascii ext \<in> set ts_extensions"
  shows "seg_ok (stem @ CHR ''.'' # ext)"
proof -
  have "ext \<noteq> []" using assms(2) by (rule extension_nonempty)
  moreover have "ext \<noteq> ''.''" using assms(2) by (auto simp: ts_extensions_def)
  moreover have "CHR ''/'' \<notin> set ext" using assms(2) by (rule extension_no_slash)
  ultimately show ?thesis using assms(1)
    by (auto simp: seg_ok_def append_eq_Cons_conv Cons_eq_append_conv)
qed

text \<open>
  Claim C3. Let the source root, the output root and a source file below the source
  root be normalised absolute paths, the file in the directory \<open>ds\<close> below the source
  root and named \<open>stem.ext\<close> with one of the extensions \<^verbatim>\<open>ts\<close>, \<^verbatim>\<open>tsx\<close>, \<^verbatim>\<open>mts\<close>,
  \<^verbatim>\<open>cts\<close> in any case. Then the file is recognised as a source file, and the cleaner
  targets exactly one path for each emitted suffix, in the order of the suffixes and all
  different: the output root, then the same directory \<open>ds\<close>, then \<open>stem\<close> without the
  extension, then the suffix. The mapping is a function of its arguments alone.
\<close>

theorem emitted_targets_mirror:
  assumes "\<forall>s \<in> set (rs @ os @ ds). seg_ok s"
    and "CHR ''/'' \<notin> set stem"
    and "map lower_ascii ext \<in> set ts_extensions"
  shows "isTsLike (abs_path (rs @ ds @ [stem @ ''.'' @ ext]))
       \<and> emitted_targets wd (abs_path rs) (abs_path os) (abs_path (rs @ ds @ [stem @ ''.'' @ ext]))
           = map (\<lambda>suffix. abs_path (os @ ds @ [stem]) @ suffix) EMITTED_SUFFIXES
       \<and> length (emitted_targets wd (abs_path rs) (abs_path os) (abs_path (rs @ ds @ [stem @ ''.'' @ ext])))
           = length EMITTED_SUFFIXES
       \<and> distinct (emitted_targets wd (abs_path rs) (abs_path os) (abs_path (rs @ ds @ [stem @ ''.'' @ ext])))"
proof -
  let ?file = "stem @ CHR ''.'' # ext"
  let ?qs = "ds @ [?file]"
  have ok: "\<forall>s \<in> set (rs @ os @ ?qs). seg_ok s"
    using assms(1) source_file_seg_ok [OF assms(2,3)] by auto
  have out: "toOutPath wd (abs_path rs) (abs_path os) (abs_path (rs @ ?qs)) = abs_path (os @ ?qs)"
    using ok by (intro toOutPath_below) simp_all
  have split: "abs_path (os @ ?qs) = abs_path (os @ ds @ [stem]) @ CHR ''.'' # ext"
    using abs_path_snoc [of "os @ ds" stem "CHR ''.'' # ext"] by simp
  have base: "stripTsExt (abs_path (os @ ?qs)) = abs_path (os @ ds @ [stem])"
    unfolding split using assms(3) by (rule stripTsExt_suffix)
  have tl: "isTsLike (abs_path (rs @ ?qs))"
    using abs_path_snoc [of "rs @ ds" stem "CHR ''.'' # ext"] isTsLike_suffix [OF assms(3)]
    by simp
  have eq: "emitted_targets wd (abs_path rs) (abs_path os) (abs_path (rs @ ?qs))
      = map (\<lambda>suffix. abs_path (os @ ds @ [stem]) @ suffix) EMITTED_SUFFIXES"
    by (simp add: emitted_targets_def out base Let_def)
  have dist: "distinct (map (\<lambda>suffix. abs_path (os @ ds @ [stem]) @ suffix) EMITTED_SUFFIXES)"
    by (simp add: distinct_map inj_on_def EMITTED_SUFFIXES_def)
  show ?thesis using tl eq dist by simp
qed

theorem emitted_targets_mirror_witness:
  "emitted_targets ''/home/u'' ''/proj/src'' ''/proj/dist'' ''/proj/src/a/b.ts''
     = [''/proj/dist/a/b.js'', ''/proj/dist/a/b.js.map'', ''/proj/dist/a/b.d.ts'',
        ''/proj/dist/a/b.d.ts.map'', ''/proj/dist/a/b.mjs'', ''/proj/dist/a/b.mjs.map'',
        ''/proj/dist/a/b.cjs'', ''/proj/dist/a/b.cjs.map'']"
proof -
  have 1: "\<forall>s \<in> set ([''proj'', ''src''] @ [''proj'', ''dist''] @ [''a'']). seg_ok s"
    by (simp add: seg_ok_def)
  have 2: "CHR ''/'' \<notin> set ''b''" by simp
  have 3: "map lower_ascii ''ts'' \<in> set ts_extensions"
    by (simp add: ts_extensions_def lower_ascii_def)
  show ?thesis
    using emitted_targets_mirror [OF 1 2 3, of "''/home/u''"]
    by (simp add: abs_path_def EMITTED_SUFFIXES_def)
qed

section \<open>Properties of the orchestrator\<close>

subsection \<open>The one-shot build\<close>

lemma files_console_log [simp]: "files (console_log t w) = files w"
  by (simp add: console_log_def emit_def split: option.splits)

lemma files_console_error [simp]: "files (console_error t w) = files w"
  by (simp add: console_error_def emit_def split: option.splits)

lemma rm_rf_clears: "q \<in> rm_rf p fs \<Longrightarrow> \<not> under p q"
  by (simp add: rm_rf_def)

lemma run_both_tsc_fails:
  assumes "run ''tsc'' (tscArgs cfg) (tsc_run env) = Inl e"
  shows "fst (run_both cfg env w) = Inl e"
  using assms by (simp add: run_both_def run_step_def)

lemma build_once_failure:
  assumes "fst (run_both cfg env (console_log t w)) = Inl e" and "cleanup_rm env = None"
    and "t = newline @ package_mark @ '' Starting build...''"
  shows "fst (build_once cfg env w) = Inl e"
    and "\<forall>q \<in> files (snd (build_once cfg env w)). \<not> under (outDirAbs cfg) q"
  using assms
  by (auto simp: build_once_def Let_def rm_rf_clears split: prod.splits sum.splits)

lemma build_once_failure_swallowed:
  assumes "fst (run_both cfg env (console_log t w)) = Inl e" and "cleanup_rm env = Some ENOENT"
    and "t = newline @ package_mark @ '' Starting build...''"
  shows "fst (build_once cfg env w) = Inl e"
  using assms
  by (auto simp: build_once_def Let_def split: prod.splits sum.splits)

lemma build_once_cleanup_fails:
  assumes "fst (run_both cfg env (console_log t w)) = Inl e" and "cleanup_rm env = Some (RmError e')"
    and "t = newline @ package_mark @ '' Starting build...''"
  shows "fst (build_once cfg env w) = Inl e'"
  using assms
  by (auto simp: build_once_def Let_def split: prod.splits sum.splits)

lemma trim_sample:
  "trim (captured [(FromStdout, ''error TS1: bad''), (FromStderr, newline)]) = ''error TS1: bad''"
  by (simp add: captured_def trim_def trimStart_def trimEnd_def white_space_def startsWith_def
      newline_def)

lemma trim_blank: "trim (captured [(FromStderr, [CHR 0xC2, CHR 0xA0, CHR 0x0A])]) = []"
  by (simp add: captured_def trim_def trimStart_def trimEnd_def white_space_def startsWith_def)

text \<open>
  Claim C4, with the failure of the second removal set apart. In a one-shot build whose
  first cleaning of the output directory goes through, let the compiler exit with a code
  other than 0. If the removal of the output directory that follows goes through, the
  build fails with the text the compiler wrote to its standard output and standard error,
  taken together and trimmed, or, when that trimmed text is empty, with the message made
  of the command line and the exit code; and afterwards no path at or below the output
  directory exists, whatever the compiler had written. If that removal fails with an
  error that is not \<^verbatim>\<open>ENOENT\<close>, the build fails with the error of the removal, not with
  the one of the compiler. (A failure with \<^verbatim>\<open>ENOENT\<close> is swallowed: the error of the
  compiler is the one surfaced.)
\<close>

theorem one_shot_failure_cleans_and_reports:
  assumes "\<not> watch args"
    and "rmIfExists (outDirAbs cfg) (clean_rm env) (files w) = Inr fs"
    and "tsc_run env = Exited code chunks written"
    and "code \<noteq> Some 0"
  shows "(cleanup_rm env = None \<longrightarrow>
            fst (build args cfg env w)
              = Inl (if trim (captured chunks) \<noteq> [] then trim (captured chunks)
                     else ''tsc -p '' @ tsconfigPath cfg @ '' --pretty failed with exit code '' @ show_code code)
            \<and> (\<forall>q \<in> files (snd (build args cfg env w)). \<not> under (outDirAbs cfg) q))
       \<and> (cleanup_rm env = Some ENOENT \<longrightarrow>
            fst (build args cfg env w)
              = Inl (if trim (captured chunks) \<noteq> [] then trim (captured chunks)
                     else ''tsc -p '' @ tsconfigPath cfg @ '' --pretty failed with exit code '' @ show_code code))
       \<and> (\<forall>e'. cleanup_rm env = Some (RmError e') \<longrightarrow> fst (build args cfg env w) = Inl e')"
proof -
  let ?e = "run_error_message ''tsc'' (tscArgs cfg) code (captured chunks)"
  have r: "run ''tsc'' (tscArgs cfg) (tsc_run env) = Inl ?e"
    using assms(3,4) by simp
  have msg: "?e = (if trim (captured chunks) \<noteq> [] then trim (captured chunks)
                  else ''tsc -p '' @ tsconfigPath cfg @ '' --pretty failed with exit code '' @ show_code code)"
    by (simp add: run_error_message_def tscArgs_def Let_def)
  define w4 where "w4 = console_log (check_mark @ '' Output directory cleaned'')
     ((console_log (package_mark @ '' Cleaning output directory...'') (console_log (banner args cfg) w))\<lparr>files := fs\<rparr>)"
  have b: "build args cfg env w = build_once cfg env w4"
    using assms(1,2) by (simp add: build_def Let_def w4_def)
  have f: "fst (run_both cfg env (console_log (newline @ package_mark @ '' Starting build...'') w4)) = Inl ?e"
    using r by (rule run_both_tsc_fails)
  have 1: "cleanup_rm env = None \<longrightarrow>
            fst (build args cfg env w) = Inl ?e
            \<and> (\<forall>q \<in> files (snd (build args cfg env w)). \<not> under (outDirAbs cfg) q)"
    unfolding b using build_once_failure [OF f _ refl] by simp
  have 2: "cleanup_rm env = Some ENOENT \<longrightarrow> fst (build args cfg env w) = Inl ?e"
    unfolding b using build_once_failure_swallowed [OF f _ refl] by simp
  have 3: "\<forall>e'. cleanup_rm env = Some (RmError e') \<longrightarrow> fst (build args cfg env w) = Inl e'"
    unfolding b using build_once_cleanup_fails [OF f _ refl] by simp
  show ?thesis
    unfolding msg [symmetric] using 1 2 3 by simp
qed

theorem one_shot_failure_cleans_and_reports_witness:
  "fst (build one_shot sample_config failing_compiler
          (initial_world {''/proj/dist/old.js'', ''/proj/src/a.ts''})) = Inl ''error TS1: bad''
   \<and> ''/proj/dist/a.js'' \<notin> files (snd (build one_shot sample_config failing_compiler
          (initial_world {''/proj/dist/old.js'', ''/proj/src/a.ts''})))
   \<and> fst (build one_shot sample_config blank_compiler
          (initial_world {''/proj/dist/old.js'', ''/proj/src/a.ts''}))
       = Inl ''tsc -p /proj/tsconfig.json --pretty failed with exit code 2''
   \<and> fst (build one_shot sample_config locked_output
          (initial_world {''/proj/dist/old.js'', ''/proj/src/a.ts''})) = Inl ''EACCES''"
proof -
  let ?w = "initial_world {''/proj/dist/old.js'', ''/proj/src/a.ts''}"
  have 1: "\<not> watch one_shot" by (simp add: one_shot_def)
  have 2: "rmIfExists (outDirAbs sample_config) (clean_rm failing_compiler) (files ?w)
             = Inr (rm_rf (outDirAbs sample_config) (files ?w))"
    by (simp add: failing_compiler_def)
  have 3: "tsc_run failing_compiler
             = Exited (Some 2) [(FromStdout, ''error TS1: bad''), (FromStderr, newline)] [''/proj/dist/a.js'']"
    by (simp add: failing_compiler_def)
  have 4: "Some (2::nat) \<noteq> Some 0" by simp
  have 5: "cleanup_rm failing_compiler = None" by (simp add: failing_compiler_def)
  have u: "under (outDirAbs sample_config) ''/proj/dist/a.js''"
    by (simp add: under_def startsWith_def sample_config_def)
  have a: "fst (build one_shot sample_config failing_compiler ?w) = Inl ''error TS1: bad''
       \<and> ''/proj/dist/a.js'' \<notin> files (snd (build one_shot sample_config failing_compiler ?w))"
    using one_shot_failure_cleans_and_reports [OF 1 2 3 4, THEN conjunct1, THEN mp, OF 5]
      trim_sample u by auto
  have b2: "rmIfExists (outDirAbs sample_config) (clean_rm blank_compiler) (files ?w)
             = Inr (rm_rf (outDirAbs sample_config) (files ?w))"
    by (simp add: blank_compiler_def failing_compiler_def)
  have b3: "tsc_run blank_compiler = Exited (Some 2) [(FromStderr, [CHR 0xC2, CHR 0xA0, CHR 0x0A])] []"
    by (simp add: blank_compiler_def)
  have b5: "cleanup_rm blank_compiler = None" by (simp add: blank_compiler_def failing_compiler_def)
  have c: "show_code (Some 2) = ''2''" by code_simp
  have b: "fst (build one_shot sample_config blank_compiler ?w)
             = Inl ''tsc -p /proj/tsconfig.json --pretty failed with exit code 2''"
    using one_shot_failure_cleans_and_reports [OF 1 b2 b3 4, THEN conjunct1, THEN mp, OF b5]
    by (simp add: trim_blank c sample_config_def del: show_code.simps)
  have l2: "rmIfExists (outDirAbs sample_config) (clean_rm locked_output) (files ?w)
             = Inr (rm_rf (outDirAbs sample_config) (files ?w))"
    by (simp add: locked_output_def failing_compiler_def)
  have l3: "tsc_run locked_output
             = Exited (Some 2) [(FromStdout, ''error TS1: bad''), (FromStderr, newline)] [''/proj/dist/a.js'']"
    by (simp add: locked_output_def failing_compiler_def)
  have l5: "cleanup_rm locked_output = Some (RmError ''EACCES'')"
    by (simp add: locked_output_def)
  have d: "fst (build one_shot sample_config locked_output ?w) = Inl ''EACCES''"
    using one_shot_failure_cleans_and_reports [OF 1 l2 l3 4, THEN conjunct2, THEN conjunct2]
      l5 by blast
  from a b d show ?thesis by simp
qed

text \<open>
  Claim C4 as first stated fails when the second removal fails: with an output
  directory that cannot be removed after the compiler has failed, the caller gets the
  error of the removal instead of the diagnostic of the compiler, and the file the
  compiler wrote is still there.
\<close>

theorem failed_cleanup_hides_the_compiler_error:
  "fst (build one_shot sample_config locked_output
          (initial_world {''/proj/dist/old.js'', ''/proj/src/a.ts''})) = Inl ''EACCES''
   \<and> ''/proj/dist/a.js'' \<in> files (snd (build one_shot sample_config locked_output
          (initial_world {''/proj/dist/old.js'', ''/proj/src/a.ts''})))"
  by (simp add: build_def build_once_def run_both_def run_step_def locked_output_def
      failing_compiler_def one_shot_def sample_config_def Let_def)


subsection \<open>The first pass of watch mode\<close>

lemma run_both_failure_cases:
  assumes "run ''tsc'' (tscArgs cfg) (tsc_run env) = Inl e
           \<or> (run ''tsc'' (tscArgs cfg) (tsc_run env) = Inr ()
               \<and> run ''tsc-alias'' (aliasArgs cfg) (alias_run env) = Inl e)"
  shows "fst (run_both cfg env w) = Inl e"
  using assms by (auto simp: run_both_def run_step_def)

lemma run_both_state:
  "ui (snd (run_both cfg env w)) = ui w
   \<and> console_routed (snd (run_both cfg env w)) = console_routed w
   \<and> inProgress (snd (run_both cfg env w)) = inProgress w
   \<and> exit_code (snd (run_both cfg env w)) = exit_code w"
  by (simp add: run_both_def run_step_def emit_def split: prod.splits sum.splits)

lemma console_log_routed_ui:
  "console_routed w \<Longrightarrow> ui w = Some u \<Longrightarrow>
   console_log t w = w\<lparr>ui := Some (logToBldr u t)\<rparr>"
  by (simp add: console_log_def)

lemma tscBox_logToBldr [simp]: "tscBox (logToBldr u t) = tscBox u"
  by (simp add: logToBldr_def)

text \<open>
  Claim C7. In watch mode, when the cleaning of the output directory goes through and
  the first pass fails with the error \<open>e\<close> (the compiler fails, or the compiler succeeds
  and the alias resolver fails), the build does not fail: the failure is written to the
  compiler's box of the display, both long-running processes are spawned with \<^verbatim>\<open>-w\<close>
  and with their output handlers attached, the watcher of the source root is started,
  no shutdown has begun and the process has not exited.
\<close>

theorem watch_initial_failure_not_fatal:
  assumes "watch args"
    and "rmIfExists (outDirAbs cfg) (clean_rm env) fs = Inr fs'"
    and "run ''tsc'' (tscArgs cfg) (tsc_run env) = Inl e
         \<or> (run ''tsc'' (tscArgs cfg) (tsc_run env) = Inr ()
             \<and> run ''tsc-alias'' (aliasArgs cfg) (alias_run env) = Inl e)"
  shows "fst (build args cfg env (initial_world fs)) = Inr ()
       \<and> map_option tscBox (ui (snd (build args cfg env (initial_world fs))))
           = Some [cross_mark @ '' Initial build failed: '' @ e @ ''{/red-fg}'']
       \<and> tsc_proc (snd (build args cfg env (initial_world fs)))
           = Some \<lparr>cmd = ''tsc'', cmd_args = [''-p'', tsconfigPath cfg, ''--pretty'', ''-w''],
                   alive = True, killed = False, received = [], piped = True\<rparr>
       \<and> alias_proc (snd (build args cfg env (initial_world fs)))
           = Some \<lparr>cmd = ''tsc-alias'', cmd_args = [''-p'', tsconfigPath cfg, ''-w''],
                   alive = True, killed = False, received = [], piped = True\<rparr>
       \<and> watcher_open (snd (build args cfg env (initial_world fs))) = Some True
       \<and> \<not> inProgress (snd (build args cfg env (initial_world fs)))
       \<and> exit_code (snd (build args cfg env (initial_world fs))) = None"
proof -
  define w1 where "w1 = (emit ScreenCreated (initial_world fs))\<lparr>ui := Some empty_ui, console_routed := True\<rparr>"
  define u4 where "u4 = logToBldr (logToBldr (logToBldr empty_ui (banner args cfg))
      (package_mark @ '' Cleaning output directory...'')) (check_mark @ '' Output directory cleaned'')"
  define w4 where "w4 = w1\<lparr>files := fs', ui := Some u4\<rparr>"
  have b: "build args cfg env (initial_world fs) = build_watch cfg env w4"
    using assms(1,2)
    by (simp add: build_def Let_def w1_def w4_def u4_def console_log_def emit_def initial_world_def)
  define u5 where "u5 = logToBldr u4 (newline @ package_mark @ '' Starting initial build...'')"
  define w5 where "w5 = w4\<lparr>ui := Some u5\<rparr>"
  have c5: "console_log (newline @ package_mark @ '' Starting initial build...'') w4 = w5"
    by (simp add: console_log_def w4_def w1_def w5_def u5_def)
  have f: "fst (run_both cfg env w5) = Inl e"
    using assms(3) by (rule run_both_failure_cases)
  have s: "ui (snd (run_both cfg env w5)) = Some u5"
    "\<not> inProgress (snd (run_both cfg env w5))" "exit_code (snd (run_both cfg env w5)) = None"
    using run_both_state [of cfg env w5]
    by (simp_all add: w5_def w4_def w1_def emit_def initial_world_def)
  have t: "tscBox u5 = []"
    by (simp add: u5_def u4_def empty_ui_def)
  obtain r w6 where rw: "run_both cfg env w5 = (r, w6)" by (cases "run_both cfg env w5")
  with f s have r: "r = Inl e" and u6: "ui w6 = Some u5" and i6: "\<not> inProgress w6"
    and x6: "exit_code w6 = None" by simp_all
  show ?thesis
    unfolding b
    by (simp add: build_watch_def c5 rw r u6 i6 x6 t Let_def emit_def spawnLongRunning_def
        tscArgs_def aliasArgs_def)
qed

theorem watch_initial_failure_not_fatal_witness:
  "fst (build watching sample_config failing_compiler (initial_world {})) = Inr ()
   \<and> map_option tscBox (ui (snd (build watching sample_config failing_compiler (initial_world {}))))
       = Some [cross_mark @ '' Initial build failed: error TS1: bad{/red-fg}'']
   \<and> map_option alive (tsc_proc (snd (build watching sample_config failing_compiler (initial_world {}))))
       = Some True
   \<and> watcher_open (snd (build watching sample_config failing_compiler (initial_world {}))) = Some True"
proof -
  have 1: "watch watching" by (simp add: watching_def)
  have 2: "rmIfExists (outDirAbs sample_config) (clean_rm failing_compiler) {}
             = Inr (rm_rf (outDirAbs sample_config) {})"
    by (simp add: failing_compiler_def)
  have "run ''tsc'' (tscArgs sample_config) (tsc_run failing_compiler) = Inl ''error TS1: bad''"
    using trim_sample by (simp add: failing_compiler_def run_error_message_def)
  then have 3: "run ''tsc'' (tscArgs sample_config) (tsc_run failing_compiler) = Inl ''error TS1: bad''
         \<or> (run ''tsc'' (tscArgs sample_config) (tsc_run failing_compiler) = Inr ()
             \<and> run ''tsc-alias'' (aliasArgs sample_config) (alias_run failing_compiler)
                 = Inl ''error TS1: bad'')"
    by (rule disjI1)
  from watch_initial_failure_not_fatal [OF 1 2 3] show ?thesis by simp
qed


subsection \<open>Shutdown\<close>

lemma inProgress_console_log [simp]: "inProgress (console_log t w) = inProgress w"
  by (simp add: console_log_def emit_def split: option.splits)

lemma inProgress_console_error [simp]: "inProgress (console_error t w) = inProgress w"
  by (simp add: console_error_def emit_def split: option.splits)

lemma inProgress_begin: "inProgress (shutdown_begin w)"
  by (simp add: shutdown_begin_def Let_def emit_def split: option.splits)

lemma inProgress_close_watcher [simp]:
  "inProgress (shutdown_close_watcher env w) = inProgress w"
  by (simp add: shutdown_close_watcher_def emit_def split: option.splits)

lemma inProgress_kill [simp]: "inProgress (shutdown_kill env w) = inProgress w"
  by (simp add: shutdown_kill_def kill_request_def Let_def split: prod.splits option.splits)

lemma inProgress_finish [simp]: "inProgress (shutdown_finish code w) = inProgress w"
  by (simp add: shutdown_finish_def emit_def)

lemma inProgress_shutdown: "inProgress (shutdown code env w)"
  by (simp add: shutdown_def inProgress_begin)

lemma shutdown_reentrant: "inProgress w \<Longrightarrow> shutdown code env w = w"
  by (simp add: shutdown_def)

lemma teardown_view_console_error [simp]:
  "teardown_view (console_error t w) = teardown_view w"
  by (simp add: teardown_view_def console_error_def emit_def split: option.splits)

lemma handle_reentrant:
  assumes "inProgress w"
  shows "teardown_view (handle t env w) = teardown_view w"
proof (cases t)
  case (TscExited code)
  then show ?thesis using assms
    by (auto simp: on_child_exit_def shutdown_reentrant teardown_view_def console_error_def emit_def
        split: option.splits)
next
  case (AliasExited code)
  then show ?thesis using assms
    by (auto simp: on_child_exit_def shutdown_reentrant teardown_view_def console_error_def emit_def
        split: option.splits)
qed (simp_all add: assms shutdown_reentrant)

text \<open>
  Claim C8. The flag \<^verbatim>\<open>shutdown.inProgress\<close> is set by the first step of a shutdown and
  stays set through every later step. While it is set, another call of \<^verbatim>\<open>shutdown\<close>,
  whatever its code, returns the world as it is, and so does the handler of either
  signal and of the exit key; the handler of a child's exit leaves everything a
  teardown step would touch as it is.
\<close>

theorem shutdown_runs_at_most_once:
  "inProgress (shutdown_begin w)
   \<and> inProgress (shutdown_close_watcher env (shutdown_begin w))
   \<and> inProgress (shutdown_kill env (shutdown_close_watcher env (shutdown_begin w)))
   \<and> inProgress (shutdown code env w)
   \<and> (inProgress w' \<longrightarrow>
        shutdown code' env' w' = w'
        \<and> handle GotSIGINT env' w' = w'
        \<and> handle GotSIGTERM env' w' = w'
        \<and> handle ExitKey env' w' = w'
        \<and> teardown_view (handle (TscExited exit) env' w') = teardown_view w'
        \<and> teardown_view (handle (AliasExited exit) env' w') = teardown_view w')"
proof -
  have "teardown_view (handle (TscExited exit) env' w') = teardown_view w'"
    and "teardown_view (handle (AliasExited exit) env' w') = teardown_view w'"
    if "inProgress w'"
    using that by (rule handle_reentrant)+
  then show ?thesis
    by (simp add: inProgress_begin inProgress_shutdown shutdown_reentrant del: handle.simps(4,5))
qed

theorem shutdown_runs_at_most_once_witness:
  "shutdown 3 stubborn_compiler (shutdown 0 stubborn_compiler (initial_world {}))
     = shutdown 0 stubborn_compiler (initial_world {})
   \<and> handle GotSIGINT stubborn_compiler (shutdown 0 stubborn_compiler (initial_world {}))
     = shutdown 0 stubborn_compiler (initial_world {})
   \<and> exit_code (shutdown 0 stubborn_compiler (initial_world {})) = Some 0"
proof -
  let ?w = "shutdown 0 stubborn_compiler (initial_world {})"
  note t = shutdown_runs_at_most_once
    [of "initial_world {}" stubborn_compiler 0 ?w 3 stubborn_compiler None]
  from t have "inProgress ?w" by blast
  with t have "shutdown 3 stubborn_compiler ?w = ?w" "handle GotSIGINT stubborn_compiler ?w = ?w"
    by blast+
  moreover have "exit_code ?w = Some 0"
    by (simp add: shutdown_def shutdown_finish_def initial_world_def)
  ultimately show ?thesis by simp
qed

subsection \<open>Where the status lines of a shutdown go\<close>

lemma terminal_lines_console_log_routed:
  "console_routed w \<Longrightarrow> terminal_lines (console_log t w) = terminal_lines w"
  by (simp add: console_log_def terminal_lines_def split: option.splits)

lemma terminal_lines_console_error_routed:
  "console_routed w \<Longrightarrow> terminal_lines (console_error t w) = terminal_lines w"
  by (simp add: console_error_def terminal_lines_def split: option.splits)

lemma routed_console_log [simp]: "console_routed (console_log t w) = console_routed w"
  by (simp add: console_log_def emit_def split: option.splits)

lemma routed_console_error [simp]: "console_routed (console_error t w) = console_routed w"
  by (simp add: console_error_def emit_def split: option.splits)

lemma ui_gone_console_log: "console_routed w \<Longrightarrow> ui w = None \<Longrightarrow> console_log t w = w"
  by (simp add: console_log_def)

lemma ui_gone_console_error: "console_routed w \<Longrightarrow> ui w = None \<Longrightarrow> console_error t w = w"
  by (simp add: console_error_def)

lemma shutdown_begin_routed:
  assumes "console_routed w"
  shows "console_routed (shutdown_begin w) \<and> ui (shutdown_begin w) = None
       \<and> terminal_lines (shutdown_begin w) = terminal_lines w"
  using assms
  by (auto simp: shutdown_begin_def Let_def console_log_def emit_def terminal_lines_def
      split: option.splits)

lemma shutdown_close_watcher_routed:
  assumes "console_routed w" and "ui w = None"
  shows "console_routed (shutdown_close_watcher env w) \<and> ui (shutdown_close_watcher env w) = None
       \<and> terminal_lines (shutdown_close_watcher env w) = terminal_lines w"
  using assms
  by (auto simp: shutdown_close_watcher_def console_log_def console_error_def emit_def
      terminal_lines_def split: option.splits)

lemma shutdown_kill_routed:
  assumes "console_routed w" and "ui w = None"
  shows "console_routed (shutdown_kill env w) \<and> ui (shutdown_kill env w) = None
       \<and> terminal_lines (shutdown_kill env w) = terminal_lines w"
  using assms
  by (auto simp: shutdown_kill_def kill_request_def Let_def console_log_def terminal_lines_def
      split: prod.splits option.splits)

lemma shutdown_finish_routed:
  assumes "console_routed w" and "ui w = None"
  shows "terminal_lines (shutdown_finish code w) = terminal_lines w
       \<and> ui (shutdown_finish code w) = None"
  using assms
  by (simp add: shutdown_finish_def console_log_def emit_def terminal_lines_def)

lemma shutdown_status_lines_lost:
  assumes "console_routed w"
  shows "terminal_lines (shutdown code env w) = terminal_lines w
       \<and> (\<not> inProgress w \<longrightarrow> ui (shutdown code env w) = None)"
proof (cases "inProgress w")
  case True
  then show ?thesis by (simp add: shutdown_def)
next
  case False
  note b = shutdown_begin_routed [OF assms]
  note c = shutdown_close_watcher_routed [of "shutdown_begin w" env]
  note k = shutdown_kill_routed [of "shutdown_close_watcher env (shutdown_begin w)" env]
  note f = shutdown_finish_routed
    [of "shutdown_kill env (shutdown_close_watcher env (shutdown_begin w))" code]
  from b c k f False show ?thesis by (simp add: shutdown_def)
qed

subsection \<open>The forced kill\<close>

lemma kill_request_live:
  assumes "alive c" and "\<not> killed c"
  shows "snd (kill_request name (Some c) w)
         = (Some (c\<lparr>killed := True, received := received c @ [SIGTERM], alive := True\<rparr>), True)"
  using assms by (simp add: kill_request_def kill_def)

lemma kill_wait_after_request:
  assumes "killed c" and "alive c" and "\<not> (\<exists>d. exit_after = Some d \<and> d < KILL_TIMEOUT_MS)"
  shows "kill_wait exit_after c = (c, KILL_TIMEOUT_MS)"
  using assms by (auto simp: kill_wait_def on_timeout_def split: option.splits)

lemma tsc_proc_console_log [simp]: "tsc_proc (console_log t w) = tsc_proc w"
  by (simp add: console_log_def emit_def split: option.splits)

lemma tsc_proc_console_error [simp]: "tsc_proc (console_error t w) = tsc_proc w"
  by (simp add: console_error_def emit_def split: option.splits)

lemma tsc_proc_begin [simp]: "tsc_proc (shutdown_begin w) = tsc_proc w"
  by (simp add: shutdown_begin_def Let_def emit_def split: option.splits)

lemma tsc_proc_close_watcher [simp]: "tsc_proc (shutdown_close_watcher env w) = tsc_proc w"
  by (simp add: shutdown_close_watcher_def emit_def split: option.splits)

lemma tsc_proc_finish [simp]: "tsc_proc (shutdown_finish code w) = tsc_proc w"
  by (simp add: shutdown_finish_def emit_def)

lemma exit_code_finish [simp]: "exit_code (shutdown_finish code w) = Some code"
  by (simp add: shutdown_finish_def)

lemma shutdown_kill_tsc:
  "tsc_proc (shutdown_kill env w)
     = fst (kill_settle (tsc_exit_after env) (snd (kill_request ''tsc'' (tsc_proc w) w)))"
  by (simp add: shutdown_kill_def Let_def split: prod.splits)

text \<open>
  Claim C2, where the program departs from it. Let the compiler process be alive with
  \<^verbatim>\<open>killed\<close> false when the shutdown starts, and let it not exit within the timeout after
  the request to terminate. Then the request sets \<^verbatim>\<open>killed\<close>, the test \<^verbatim>\<open>!p.killed\<close> in the
  timer fails, and the shutdown ends with the exit code it was given while the process
  has received \<^verbatim>\<open>SIGTERM\<close> and nothing else and is still alive: no \<^verbatim>\<open>SIGKILL\<close> is sent.
\<close>

theorem forced_kill_is_never_sent:
  assumes "\<not> inProgress w"
    and "tsc_proc w = Some c" and "alive c" and "\<not> killed c"
    and "case tsc_exit_after env of None \<Rightarrow> True | Some d \<Rightarrow> KILL_TIMEOUT_MS \<le> d"
  shows "tsc_proc (shutdown code env w)
           = Some (c\<lparr>killed := True, received := received c @ [SIGTERM], alive := True\<rparr>)
       \<and> exit_code (shutdown code env w) = Some code"
proof -
  let ?c = "c\<lparr>killed := True, received := received c @ [SIGTERM], alive := True\<rparr>"
  have late: "\<not> (\<exists>d. tsc_exit_after env = Some d \<and> d < KILL_TIMEOUT_MS)"
    using assms(5) by (auto split: option.splits)
  have w: "kill_wait (tsc_exit_after env) ?c = (?c, KILL_TIMEOUT_MS)"
    using late by (intro kill_wait_after_request) simp_all
  have "tsc_proc (shutdown_kill env w') = Some ?c" if "tsc_proc w' = Some c" for w'
    unfolding shutdown_kill_tsc that kill_request_live [OF assms(3,4)]
    by (simp add: kill_settle_def w)
  then show ?thesis using assms(1,2) by (simp add: shutdown_def)
qed

theorem forced_kill_is_never_sent_witness:
  "map_option received
     (tsc_proc (shutdown 0 stubborn_compiler
        ((initial_world {})\<lparr>tsc_proc := Some (spawnLongRunning ''tsc'' [''-w''])\<rparr>)))
     = Some [SIGTERM]
   \<and> map_option alive
     (tsc_proc (shutdown 0 stubborn_compiler
        ((initial_world {})\<lparr>tsc_proc := Some (spawnLongRunning ''tsc'' [''-w''])\<rparr>)))
     = Some True"
proof -
  let ?c = "spawnLongRunning ''tsc'' [''-w'']"
  let ?w = "(initial_world {})\<lparr>tsc_proc := Some ?c\<rparr>"
  have 1: "\<not> inProgress ?w" by (simp add: initial_world_def)
  have 2: "tsc_proc ?w = Some ?c" by simp
  have 3: "alive ?c" and 4: "\<not> killed ?c" by (simp_all add: spawnLongRunning_def)
  have 5: "case tsc_exit_after stubborn_compiler of None \<Rightarrow> True | Some d \<Rightarrow> KILL_TIMEOUT_MS \<le> d"
    by (simp add: stubborn_compiler_def)
  from forced_kill_is_never_sent [OF 1 2 3 4 5, of 0] show ?thesis
    by (simp add: spawnLongRunning_def)
qed


lemma terminal_lines_emit: "\<not> is_terminal e \<Longrightarrow> terminal_lines (emit e w) = terminal_lines w"
  by (simp add: terminal_lines_def emit_def)

lemma run_both_terminal:
  "terminal_lines (snd (run_both cfg env w)) = terminal_lines w
   \<and> console_routed (snd (run_both cfg env w)) = console_routed w"
  by (simp add: run_both_def run_step_def emit_def terminal_lines_def split: prod.splits sum.splits)

lemma build_watch_terminal:
  assumes "console_routed w"
  shows "console_routed (snd (build_watch cfg env w))
       \<and> terminal_lines (snd (build_watch cfg env w)) = terminal_lines w"
proof -
  define w0 where "w0 = console_log (newline @ package_mark @ '' Starting initial build...'') w"
  have 0: "console_routed w0" "terminal_lines w0 = terminal_lines w"
    using assms by (simp_all add: w0_def terminal_lines_console_log_routed)
  obtain r w1 where rw: "run_both cfg env w0 = (r, w1)" by (cases "run_both cfg env w0")
  have 1: "console_routed w1" "terminal_lines w1 = terminal_lines w"
    using run_both_terminal [of cfg env w0] rw 0 by simp_all
  define w2 where "w2 = (case r of
                  Inr u \<Rightarrow> console_log (check_mark @ '' Initial build completed'') w1
                | Inl e \<Rightarrow>
                    (case ui w1 of
                       None \<Rightarrow> w1
                     | Some u \<Rightarrow>
                         w1\<lparr>ui := Some (u\<lparr>tscBox := tscBox u @
                               [cross_mark @ '' Initial build failed: '' @ e @ ''{/red-fg}'']\<rparr>)\<rparr>))"
  have 2: "console_routed w2 \<and> terminal_lines w2 = terminal_lines w"
  proof (cases r)
    case (Inl e)
    then show ?thesis using 1 by (cases "ui w1") (simp_all add: w2_def terminal_lines_def)
  next
    case (Inr u)
    then show ?thesis using 1 by (simp add: w2_def terminal_lines_console_log_routed)
  qed
  have "snd (build_watch cfg env w) =
    (let w3 = (emit (Spawned ''tsc'' (tscArgs cfg @ [''-w'']))
                  w2)\<lparr>tsc_proc := Some (spawnLongRunning ''tsc'' (tscArgs cfg @ [''-w'']))\<rparr>;
          w4 = (emit (Spawned ''tsc-alias'' (aliasArgs cfg @ [''-w'']))
                  w3)\<lparr>alias_proc := Some (spawnLongRunning ''tsc-alias'' (aliasArgs cfg @ [''-w'']))\<rparr>;
          w5 = (if ui w4 = None then w4
                else w4\<lparr>tsc_proc := map_option (\<lambda>c. c\<lparr>piped := True\<rparr>) (tsc_proc w4),
                        alias_proc := map_option (\<lambda>c. c\<lparr>piped := True\<rparr>) (alias_proc w4)\<rparr>)
      in (emit (WatcherStarted (rootDirAbs cfg)) w5)\<lparr>watcher_open := Some True\<rparr>)"
    unfolding build_watch_def w0_def [symmetric] rw w2_def by (simp add: Let_def)
  then show ?thesis
    using 2 by (simp add: Let_def emit_def terminal_lines_def)
qed

lemma watch_session_routed:
  assumes "watch args"
  shows "console_routed (snd (build args cfg env (initial_world fs)))
       \<and> terminal_lines (snd (build args cfg env (initial_world fs))) = []"
proof -
  define w1 where "w1 = (emit ScreenCreated (initial_world fs))\<lparr>ui := Some empty_ui, console_routed := True\<rparr>"
  define w3 where "w3 = console_log (package_mark @ '' Cleaning output directory...'')
      (console_log (banner args cfg) w1)"
  have 1: "console_routed w1" "terminal_lines w1 = []"
    by (simp_all add: w1_def emit_def terminal_lines_def initial_world_def)
  have 3: "console_routed w3" "terminal_lines w3 = []"
    using 1 by (simp_all add: w3_def terminal_lines_console_log_routed)
  show ?thesis
  proof (cases "rmIfExists (outDirAbs cfg) (clean_rm env) (files w3)")
    case (Inl e)
    then show ?thesis using assms 3 by (simp add: build_def Let_def w3_def w1_def)
  next
    case (Inr fs')
    let ?w4 = "console_log (check_mark @ '' Output directory cleaned'') (w3\<lparr>files := fs'\<rparr>)"
    have 4: "console_routed ?w4" "terminal_lines ?w4 = []"
      using 3 by (simp_all add: terminal_lines_console_log_routed) (simp add: terminal_lines_def)
    have "build args cfg env (initial_world fs) = build_watch cfg env ?w4"
      using assms Inr by (simp add: build_def Let_def w3_def w1_def)
    then show ?thesis using build_watch_terminal [OF 4(1), of cfg env] 4(2) by simp
  qed
qed

subsection \<open>A shutdown of a watch session\<close>

lemma inProgress_run_both [simp]: "inProgress (snd (run_both cfg env w)) = inProgress w"
  by (simp add: run_both_def run_step_def emit_def split: prod.splits sum.splits)

lemma inProgress_build_watch: "inProgress (snd (build_watch cfg env w)) = inProgress w"
proof -
  obtain r w1 where rw: "run_both cfg env
      (console_log (newline @ package_mark @ '' Starting initial build...'') w) = (r, w1)"
    by (cases "run_both cfg env (console_log (newline @ package_mark @ '' Starting initial build...'') w)")
  then have "inProgress w1 = inProgress w"
    using inProgress_run_both
      [of cfg env "console_log (newline @ package_mark @ '' Starting initial build...'') w"]
    by simp
  then show ?thesis
    by (cases r; cases "ui w1") (simp_all add: build_watch_def rw Let_def emit_def)
qed

lemma watch_session_not_shutting_down:
  "watch args \<Longrightarrow> \<not> inProgress (snd (build args cfg env (initial_world fs)))"
  by (cases "rmIfExists (outDirAbs cfg) (clean_rm env) fs")
    (simp_all add: build_def Let_def inProgress_build_watch initial_world_def emit_def)

text \<open>
  Claim C6, where the program departs from it. After the start of a watch session
  \<^verbatim>\<open>console.log\<close> and \<^verbatim>\<open>console.error\<close> forward to the display. A shutdown destroys the
  display first, but its status lines are still written with the replaced functions,
  which do nothing without a display: when the shutdown is over no line at all has
  reached the terminal, and the display that could have shown the lines is gone.
\<close>

theorem watch_shutdown_lines_never_reach_terminal:
  assumes "watch args"
  shows "terminal_lines (shutdown code senv (snd (build args cfg env (initial_world fs)))) = []
       \<and> ui (shutdown code senv (snd (build args cfg env (initial_world fs)))) = None
       \<and> exit_code (shutdown code senv (snd (build args cfg env (initial_world fs)))) = Some code"
proof -
  let ?w = "snd (build args cfg env (initial_world fs))"
  have r: "console_routed ?w" and t: "terminal_lines ?w = []"
    using watch_session_routed [OF assms] by simp_all
  have n: "\<not> inProgress ?w" using assms by (rule watch_session_not_shutting_down)
  have "exit_code (shutdown code senv ?w) = Some code"
    using n by (simp add: shutdown_def)
  then show ?thesis
    using shutdown_status_lines_lost [OF r, of code senv] t n by simp
qed

theorem watch_shutdown_lines_never_reach_terminal_witness:
  "terminal_lines (shutdown 0 stubborn_compiler
      (snd (build watching sample_config failing_compiler (initial_world {})))) = []
   \<and> exit_code (shutdown 0 stubborn_compiler
      (snd (build watching sample_config failing_compiler (initial_world {})))) = Some 0"
proof -
  have "watch watching" by (simp add: watching_def)
  from watch_shutdown_lines_never_reach_terminal [OF this] show ?thesis by simp
qed

section \<open>Properties of the operation queue\<close>

subsection \<open>What one step changes\<close>

lemma start_or_wait_frame [simp]:
  "next_call (start_or_wait j q) = next_call q"
  "call_key (start_or_wait j q) = call_key q"
  "x \<noteq> j \<Longrightarrow> status (start_or_wait j q) x = status q x"
  by (simp_all add: start_or_wait_def)

lemma resume_simps:
  "resume Fulfilled j q = start_or_wait j q"
  "resume (Failed e) j q = q\<lparr>status := (status q)(j := Rejected e)\<rparr>"
  by (simp_all add: resume_def)

lemma resume_frame [simp]:
  "next_call (resume r j q) = next_call q"
  "call_key (resume r j q) = call_key q"
  "x \<noteq> j \<Longrightarrow> status (resume r j q) x = status q x"
  by (cases r; simp add: resume_simps)+

lemma fold_resume_frame [simp]:
  "next_call (fold (resume r) js q) = next_call q"
  "call_key (fold (resume r) js q) = call_key q"
  by (induction js arbitrary: q) simp_all

lemma fold_resume_status_other:
  "x \<notin> set js \<Longrightarrow> status (fold (resume r) js q) x = status q x"
  by (induction js arbitrary: q) simp_all

lemma fold_resume_failed:
  "x \<in> set js \<Longrightarrow> status (fold (resume (Failed e)) js q) x = Rejected e"
proof (induction js arbitrary: q)
  case Nil
  then show ?case by simp
next
  case (Cons j js)
  show ?case
  proof (cases "x \<in> set js")
    case True
    then show ?thesis using Cons.IH by simp
  next
    case False
    with Cons.prems have "x = j" by simp
    moreover have "status (resume (Failed e) j q) j = Rejected e"
      by (simp add: resume_simps)
    ultimately show ?thesis
      using False fold_resume_status_other [of j js "Failed e" "resume (Failed e) j q"]
      by simp
  qed
qed

lemma suspended_start_or_wait: "set (suspended q) \<subseteq> set (suspended (start_or_wait j q))"
  by (auto simp: start_or_wait_def)

lemma suspended_resume: "set (suspended q) \<subseteq> set (suspended (resume r j q))"
  using suspended_start_or_wait by (cases r) (auto simp: resume_simps)

lemma suspended_fold_resume: "set (suspended q) \<subseteq> set (suspended (fold (resume r) js q))"
proof (induction js arbitrary: q)
  case Nil
  show ?case by simp
next
  case (Cons j js)
  show ?case using suspended_resume [of q r j] Cons.IH [of "resume r j q"] by auto
qed


lemma woken_set:
  "set (woken i q) = {j \<in> set (suspended q). status q j = AwaitExisting i \<or> races_on i (status q j)}"
  by (auto simp: woken_def)

lemma woken_distinct: "distinct (suspended q) \<Longrightarrow> distinct (woken i q)"
  by (auto simp: woken_def)

subsection \<open>The states the queue can reach\<close>

lemma set_update_subset: "set (AList.update k v al) \<subseteq> insert (k, v) (set al)"
  by (induction al) auto

lemma set_delete: "set (AList.delete k al) = {p \<in> set al. fst p \<noteq> k}"
  by (auto simp: AList.delete_eq)

lemma queue_ok_start_or_wait:
  assumes "queue_ok q" and "j < next_call q" and "status q j \<noteq> Running"
    and "j \<notin> set (suspended q)"
  shows "queue_ok (start_or_wait j q)"
proof (cases "MAX_CONCURRENT_OPERATIONS \<le> length (operationQueue q)")
  case True
  then show ?thesis using assms by (auto simp: queue_ok_def start_or_wait_def)
next
  case False
  then show ?thesis
    using assms set_update_subset [of "call_key q j" j "operationQueue q"]
    by (auto simp: queue_ok_def start_or_wait_def)
qed

lemma queue_ok_resume:
  assumes "queue_ok q" and "j < next_call q" and "status q j \<noteq> Running"
    and "j \<notin> set (suspended q)"
  shows "queue_ok (resume r j q)"
proof (cases r)
  case Fulfilled
  then show ?thesis using queue_ok_start_or_wait [OF assms] by (simp add: resume_simps)
next
  case (Failed e)
  then show ?thesis using assms by (auto simp: queue_ok_def resume_simps)
qed

lemma suspended_resume_le: "set (suspended (resume r j q)) \<subseteq> insert j (set (suspended q))"
  by (cases r) (auto simp: resume_simps start_or_wait_def)

lemma queue_ok_fold_resume:
  assumes "queue_ok q" and "distinct js"
    and "\<forall>j \<in> set js. j < next_call q \<and> status q j \<noteq> Running \<and> j \<notin> set (suspended q)"
  shows "queue_ok (fold (resume r) js q)"
  using assms
proof (induction js arbitrary: q)
  case Nil
  then show ?case by simp
next
  case (Cons j js)
  have ok: "queue_ok (resume r j q)"
    using Cons.prems(1,3) by (intro queue_ok_resume) simp_all
  have "\<forall>x \<in> set js. x < next_call (resume r j q) \<and> status (resume r j q) x \<noteq> Running
          \<and> x \<notin> set (suspended (resume r j q))"
  proof
    fix x assume x: "x \<in> set js"
    then have "x \<noteq> j" using Cons.prems(2) by auto
    then show "x < next_call (resume r j q) \<and> status (resume r j q) x \<noteq> Running
          \<and> x \<notin> set (suspended (resume r j q))"
      using x Cons.prems(3) suspended_resume_le [of r j q] by auto
  qed
  then show ?case using Cons.IH [OF ok] Cons.prems(2) by simp
qed

lemma queue_ok_settle:
  assumes "queue_ok q"
  shows "queue_ok (settle i r q)"
proof (cases "status q i = Running")
  case False
  then show ?thesis using assms by (simp add: settle_def)
next
  case True
  define q1 where "q1 = q\<lparr>status := (status q)(i := Settled r),
                       operationQueue := AList.delete (call_key q i) (operationQueue q)\<rparr>"
  define js where "js = woken i q1"
  define q2 where "q2 = q1\<lparr>suspended := filter (\<lambda>j. j \<notin> set js) (suspended q1)\<rparr>"
  have st: "settle i r q = fold (resume r) js q2"
    using True by (simp add: settle_def Let_def q1_def js_def q2_def)
  have ok1: "queue_ok q1"
    using assms True by (auto simp: queue_ok_def q1_def set_delete)
  have ok2: "queue_ok q2" using ok1 by (auto simp: queue_ok_def q2_def)
  have d: "distinct js" unfolding js_def using ok1 by (intro woken_distinct) (simp add: queue_ok_def)
  have "\<forall>j \<in> set js. j < next_call q2 \<and> status q2 j \<noteq> Running \<and> j \<notin> set (suspended q2)"
    using ok1 by (auto simp: js_def woken_set q2_def queue_ok_def)
  with ok2 d show ?thesis unfolding st by (rule queue_ok_fold_resume)
qed

lemma queue_ok_queuedOperation:
  assumes "queue_ok q"
  shows "queue_ok (queuedOperation k q)"
proof -
  define q1 where "q1 = q\<lparr>next_call := Suc (next_call q), call_key := (call_key q)(next_call q := k)\<rparr>"
  have ok1: "queue_ok (q1\<lparr>status := (status q1)(next_call q := AwaitExisting j),
                        suspended := suspended q1 @ [next_call q]\<rparr>)" for j
    using assms by (fastforce simp: queue_ok_def q1_def)
  have e: "status q (next_call q) = Entered" using assms by (simp add: queue_ok_def)
  have ok1': "queue_ok q1"
    using assms by (fastforce simp: queue_ok_def q1_def)
  have ok2: "queue_ok (start_or_wait (next_call q) q1)"
    using ok1' assms
    by (intro queue_ok_start_or_wait) (auto simp: q1_def e queue_ok_def)
  show ?thesis
    using ok1 ok2 by (simp add: queuedOperation_def Let_def q1_def [symmetric] split: option.splits)
qed

lemma queue_ok_empty: "queue_ok empty_queue"
  by (simp add: queue_ok_def empty_queue_def)

lemma queue_ok_step: "queue_ok q \<Longrightarrow> queue_ok (queue_step ev q)"
  by (cases ev) (simp_all add: queue_ok_queuedOperation queue_ok_settle)

lemma queue_ok_run: "queue_ok q \<Longrightarrow> queue_ok (run_queue evs q)"
  unfolding run_queue_def by (induction evs arbitrary: q) (simp_all add: queue_ok_step)

lemma run_queue_append: "run_queue (xs @ ys) q = run_queue ys (run_queue xs q)"
  by (simp add: run_queue_def)

subsection \<open>Three calls for one key\<close>

lemmas queue_eval =
  run_queue_def queuedOperation_def start_or_wait_def settle_def woken_def resume_simps
  empty_queue_def MAX_CONCURRENT_OPERATIONS_def Let_def running_def statuses_def
  AList.delete_eq upt_rec

text \<open>
  Claim C1, where the program departs from it. Three calls for one key \<open>k\<close>, made while
  the first operation runs: the second and the third both wait for the promise of the
  first. When the first operation completes, both go on, one after the other, without
  looking at the map again: both operations run at the same time. When the second
  completes it deletes the key from the map while the third is still running.
\<close>

theorem three_calls_for_one_key_overlap:
  "statuses (run_queue [Enqueue k, Enqueue k, Enqueue k] empty_queue)
     = [Running, AwaitExisting 0, AwaitExisting 0]
   \<and> statuses (run_queue [Enqueue k, Enqueue k, Enqueue k, Settle 0 Fulfilled] empty_queue)
     = [Settled Fulfilled, Running, Running]
   \<and> map (call_key (run_queue [Enqueue k, Enqueue k, Enqueue k, Settle 0 Fulfilled] empty_queue)) [0, 1, 2]
     = [k, k, k]
   \<and> statuses (run_queue [Enqueue k, Enqueue k, Enqueue k, Settle 0 Fulfilled, Settle 1 Fulfilled] empty_queue)
     = [Settled Fulfilled, Settled Fulfilled, Running]
   \<and> operationQueue (run_queue [Enqueue k, Enqueue k, Enqueue k, Settle 0 Fulfilled, Settle 1 Fulfilled]
        empty_queue) = []"
  by (simp add: queue_eval)

subsection \<open>A call that waits for the operation of its key\<close>

lemma next_call_settle [simp]: "next_call (settle i r q) = next_call q"
  by (simp add: settle_def Let_def)

lemma next_call_queuedOperation [simp]: "next_call (queuedOperation k q) = Suc (next_call q)"
  by (simp add: queuedOperation_def Let_def split: option.splits)

lemma status_queuedOperation_old:
  "x < next_call q \<Longrightarrow> status (queuedOperation k q) x = status q x"
  by (simp add: queuedOperation_def Let_def start_or_wait_def split: option.splits)

lemma suspended_queuedOperation: "set (suspended q) \<subseteq> set (suspended (queuedOperation k q))"
  by (auto simp: queuedOperation_def Let_def start_or_wait_def split: option.splits)

lemma settle_status_unwoken:
  assumes "x \<noteq> i" and "status q x \<noteq> AwaitExisting i" and "\<not> races_on i (status q x)"
  shows "status (settle i r q) x = status q x"
proof (cases "status q i = Running")
  case False
  then show ?thesis by (simp add: settle_def)
next
  case True
  have "x \<notin> set (woken i (q\<lparr>status := (status q)(i := Settled r),
                 operationQueue := AList.delete (call_key q i) (operationQueue q)\<rparr>))"
    using assms by (simp add: woken_set)
  then show ?thesis
    using True assms(1) by (simp add: settle_def Let_def fold_resume_status_other)
qed

lemma settle_keeps_suspended:
  assumes "x \<in> set (suspended q)" and "status q x \<noteq> AwaitExisting i"
    and "\<not> races_on i (status q x)" and "x \<noteq> i"
  shows "x \<in> set (suspended (settle i r q))"
proof (cases "status q i = Running")
  case False
  then show ?thesis using assms by (simp add: settle_def)
next
  case True
  define q1 where "q1 = q\<lparr>status := (status q)(i := Settled r),
                       operationQueue := AList.delete (call_key q i) (operationQueue q)\<rparr>"
  define q2 where "q2 = q1\<lparr>suspended := filter (\<lambda>j. j \<notin> set (woken i q1)) (suspended q1)\<rparr>"
  have "x \<notin> set (woken i q1)" using assms by (simp add: woken_set q1_def)
  then have "x \<in> set (suspended q2)" using assms(1) by (simp add: q2_def q1_def)
  then have "x \<in> set (suspended (fold (resume r) (woken i q1) q2))"
    using suspended_fold_resume by blast
  then show ?thesis using True by (simp add: settle_def Let_def q1_def q2_def)
qed

lemma waiting_step:
  assumes "status q j = AwaitExisting i" and "j \<in> set (suspended q)"
    and "status q i = Running" and "j < next_call q" and "i < next_call q"
    and "\<forall>r. ev \<noteq> Settle i r"
  shows "status (queue_step ev q) j = AwaitExisting i \<and> j \<in> set (suspended (queue_step ev q))
       \<and> status (queue_step ev q) i = Running \<and> j < next_call (queue_step ev q)
       \<and> i < next_call (queue_step ev q)"
proof (cases ev)
  case (Enqueue k)
  then show ?thesis
    using assms suspended_queuedOperation [of q k] by (auto simp: status_queuedOperation_old)
next
  case (Settle i' r)
  then have ne: "i' \<noteq> i" using assms(6) by auto
  have "i' \<noteq> j" if "status q i' = Running" using that assms(1) by auto
  then have j: "status (settle i' r q) j = AwaitExisting i"
    using assms(1) ne settle_status_unwoken [of j i' q r]
    by (cases "status q i' = Running") (auto simp: settle_def)
  have i: "status (settle i' r q) i = Running"
    using assms(3) ne settle_status_unwoken [of i i' q r] by simp
  have s: "j \<in> set (suspended (settle i' r q))"
  proof (cases "status q i' = Running")
    case True
    then have "j \<noteq> i'" using assms(1) by auto
    then show ?thesis using assms(1,2) ne by (intro settle_keeps_suspended) auto
  next
    case False
    then show ?thesis using assms(2) by (simp add: settle_def)
  qed
  show ?thesis using Settle j i s assms(4,5) by simp
qed

lemma waiting_run:
  assumes "status q j = AwaitExisting i" and "j \<in> set (suspended q)"
    and "status q i = Running" and "j < next_call q" and "i < next_call q"
    and "\<forall>r. Settle i r \<notin> set es"
  shows "status (run_queue es q) j = AwaitExisting i \<and> j \<in> set (suspended (run_queue es q))
       \<and> status (run_queue es q) i = Running \<and> j < next_call (run_queue es q)
       \<and> i < next_call (run_queue es q)"
  using assms
proof (induction es arbitrary: q)
  case Nil
  then show ?case by (simp add: run_queue_def)
next
  case (Cons ev es)
  have ne: "\<forall>r. ev \<noteq> Settle i r" using Cons.prems(6) by auto
  note st = waiting_step [OF Cons.prems(1-5) ne]
  have "\<forall>r. Settle i r \<notin> set es" using Cons.prems(6) by auto
  with st have "status (run_queue es (queue_step ev q)) j = AwaitExisting i
       \<and> j \<in> set (suspended (run_queue es (queue_step ev q)))
       \<and> status (run_queue es (queue_step ev q)) i = Running
       \<and> j < next_call (run_queue es (queue_step ev q))
       \<and> i < next_call (run_queue es (queue_step ev q))"
    by (intro Cons.IH) simp_all
  then show ?case by (simp add: run_queue_def)
qed

lemma failure_rejects_waiter:
  assumes "status q j = AwaitExisting i" and "j \<in> set (suspended q)" and "status q i = Running"
  shows "status (settle i (Failed e) q) j = Rejected e"
proof -
  have "i \<noteq> j" using assms(1,3) by auto
  then have "j \<in> set (woken i (q\<lparr>status := (status q)(i := Settled (Failed e)),
                 operationQueue := AList.delete (call_key q i) (operationQueue q)\<rparr>))"
    using assms(1,2) by (simp add: woken_set)
  then show ?thesis
    using assms(3) by (simp add: settle_def Let_def fold_resume_failed)
qed

lemma rejected_step:
  assumes "status q j = Rejected e" and "j < next_call q"
  shows "status (queue_step ev q) j = Rejected e \<and> j < next_call (queue_step ev q)"
proof (cases ev)
  case (Enqueue k)
  then show ?thesis using assms by (simp add: status_queuedOperation_old)
next
  case (Settle i r)
  have "status (settle i r q) j = Rejected e"
  proof (cases "status q i = Running")
    case True
    then have "j \<noteq> i" using assms(1) by auto
    then show ?thesis using assms(1) settle_status_unwoken [of j i q r] by simp
  next
    case False
    then show ?thesis using assms(1) by (simp add: settle_def)
  qed
  then show ?thesis using Settle assms(2) by simp
qed

lemma rejected_run:
  assumes "status q j = Rejected e" and "j < next_call q"
  shows "status (run_queue es q) j = Rejected e"
  using assms
proof (induction es arbitrary: q)
  case Nil
  then show ?case by (simp add: run_queue_def)
next
  case (Cons ev es)
  from rejected_step [OF Cons.prems, of ev]
  have "status (run_queue es (queue_step ev q)) j = Rejected e" by (intro Cons.IH) simp_all
  then show ?case by (simp add: run_queue_def)
qed

lemma pending_entry_running:
  assumes "queue_ok q" and "map_of (operationQueue q) k = Some i"
  shows "i < next_call q \<and> status q i = Running"
proof -
  have "(k, i) \<in> set (operationQueue q)" using assms(2) by (rule map_of_SomeD)
  then show ?thesis using assms(1) by (auto simp: queue_ok_def)
qed

text \<open>
  Claim C9, for a call that finds the promise in the map. Let the queue be in a state it
  can reach, with the promise of call \<open>i\<close> stored under the key \<open>k\<close>. A call for \<open>k\<close> made
  now waits for that promise for as long as the operation of call \<open>i\<close> has not settled,
  whatever else happens. When that operation fails with \<open>e\<close>, the waiting call is rejected
  with \<open>e\<close>, and it stays rejected whatever happens afterwards: its own operation is never
  started.
\<close>

theorem failure_of_pending_operation_rejects_waiters:
  assumes "q = run_queue evs empty_queue"
    and "map_of (operationQueue q) k = Some i"
    and "\<forall>r. Settle i r \<notin> set es"
  shows "status (run_queue es (queuedOperation k q)) (next_call q) = AwaitExisting i
       \<and> status (run_queue es' (settle i (Failed e) (run_queue es (queuedOperation k q))))
           (next_call q) = Rejected e"
proof -
  let ?j = "next_call q"
  let ?q1 = "queuedOperation k q"
  let ?q2 = "run_queue es ?q1"
  have ok: "queue_ok q" unfolding assms(1) using queue_ok_empty by (rule queue_ok_run)
  have i: "i < ?j" "status q i = Running" using pending_entry_running [OF ok assms(2)] by simp_all
  have a: "status ?q1 ?j = AwaitExisting i" "?j \<in> set (suspended ?q1)"
    using assms(2) by (simp_all add: queuedOperation_def Let_def)
  have b: "status ?q1 i = Running" using i by (simp add: status_queuedOperation_old)
  have w: "status ?q2 ?j = AwaitExisting i \<and> ?j \<in> set (suspended ?q2)
       \<and> status ?q2 i = Running \<and> ?j < next_call ?q2 \<and> i < next_call ?q2"
    using a b i(1) assms(3) by (intro waiting_run) simp_all
  then have r: "status (settle i (Failed e) ?q2) ?j = Rejected e"
    by (intro failure_rejects_waiter) simp_all
  have "?j < next_call (settle i (Failed e) ?q2)" using w by simp
  with r have "status (run_queue es' (settle i (Failed e) ?q2)) ?j = Rejected e"
    by (rule rejected_run)
  with w show ?thesis by simp
qed

theorem failure_of_pending_operation_rejects_waiters_witness:
  "status (run_queue [Settle 2 Fulfilled]
     (settle 0 (Failed ''EACCES'')
        (run_queue [Enqueue ''b''] (queuedOperation ''a'' (run_queue [Enqueue ''a''] empty_queue)))))
     1 = Rejected ''EACCES''"
proof -
  have 1: "run_queue [Enqueue ''a''] empty_queue = run_queue [Enqueue ''a''] empty_queue" by simp
  have 2: "map_of (operationQueue (run_queue [Enqueue ''a''] empty_queue)) ''a'' = Some 0"
    by (simp add: queue_eval)
  have 3: "\<forall>r. Settle 0 r \<notin> set [Enqueue ''b'']" by simp
  have n: "next_call (run_queue [Enqueue ''a''] empty_queue) = 1"
    by (simp add: run_queue_def empty_queue_def)
  from failure_of_pending_operation_rejects_waiters [OF 1 2 3, of "[Settle 2 Fulfilled]" "''EACCES''"]
  show ?thesis unfolding n by simp
qed

text \<open>
  Claim C9 as first stated fails for a call made while the operation is pending but its
  promise is no longer in the map. After three calls for one path, when the operations
  of the first and of the second have completed, the operation of the third is still
  running and the map is empty, the second having deleted the key. A fourth call for the
  path finds nothing to wait for and starts its operation at once. When the operation of
  the third call fails, the fourth call is not rejected: its operation runs on, and
  completes.
\<close>

theorem call_after_the_key_was_deleted_is_not_rejected:
  "statuses (run_queue [Enqueue ''src/a.ts'', Enqueue ''src/a.ts'', Enqueue ''src/a.ts'',
               Settle 0 Fulfilled, Settle 1 Fulfilled] empty_queue)
     = [Settled Fulfilled, Settled Fulfilled, Running]
   \<and> operationQueue (run_queue [Enqueue ''src/a.ts'', Enqueue ''src/a.ts'', Enqueue ''src/a.ts'',
               Settle 0 Fulfilled, Settle 1 Fulfilled] empty_queue) = []
   \<and> statuses (run_queue [Enqueue ''src/a.ts'', Enqueue ''src/a.ts'', Enqueue ''src/a.ts'',
               Settle 0 Fulfilled, Settle 1 Fulfilled, Enqueue ''src/a.ts''] empty_queue)
     = [Settled Fulfilled, Settled Fulfilled, Running, Running]
   \<and> statuses (run_queue [Enqueue ''src/a.ts'', Enqueue ''src/a.ts'', Enqueue ''src/a.ts'',
               Settle 0 Fulfilled, Settle 1 Fulfilled, Enqueue ''src/a.ts'',
               Settle 2 (Failed ''EACCES'')] empty_queue)
     = [Settled Fulfilled, Settled Fulfilled, Settled (Failed ''EACCES''), Running]
   \<and> statuses (run_queue [Enqueue ''src/a.ts'', Enqueue ''src/a.ts'', Enqueue ''src/a.ts'',
               Settle 0 Fulfilled, Settle 1 Fulfilled, Enqueue ''src/a.ts'',
               Settle 2 (Failed ''EACCES''), Settle 3 Fulfilled] empty_queue)
     = [Settled Fulfilled, Settled Fulfilled, Settled (Failed ''EACCES''), Settled Fulfilled]"
  by (simp add: queue_eval)

subsection \<open>Calls with different keys\<close>

lemma update_member: "(k, v) \<in> set (AList.update k v al)"
  by (induction al) auto

lemma update_keeps_other: "k' \<noteq> k \<Longrightarrow> p \<in> set al \<Longrightarrow> fst p = k' \<Longrightarrow> p \<in> set (AList.update k v al)"
  by (induction al) auto

lemma length_update_le: "length (AList.update k v al) \<le> Suc (length al)"
  by (induction al) auto

lemma call_keys_differ:
  assumes "distinct (map (call_key q) [0..<next_call q])" and "i < next_call q" and "j < next_call q"
    and "i \<noteq> j"
  shows "call_key q i \<noteq> call_key q j"
proof -
  have "inj_on (call_key q) (set [0..<next_call q])"
    using assms(1) by (simp add: distinct_map)
  then show ?thesis using assms(2-4) by (auto simp: inj_on_def)
qed

lemma ceiling_mid_parts:
  assumes "ceiling_mid js q"
  shows "queue_ok q"
    and "distinct (map (call_key q) [0..<next_call q])"
    and "\<And>i. i < next_call q \<Longrightarrow> status q i = Running \<Longrightarrow> (call_key q i, i) \<in> set (operationQueue q)"
    and "distinct (map fst (operationQueue q))"
    and "length (operationQueue q) \<le> MAX_CONCURRENT_OPERATIONS"
    and "\<And>i x. i < next_call q \<Longrightarrow> status q i \<noteq> AwaitExisting x"
    and "\<And>i. i < next_call q \<Longrightarrow> status q i = Entered \<Longrightarrow> i \<in> set js"
    and "\<And>i ps. i < next_call q \<Longrightarrow> status q i = AwaitRace ps \<Longrightarrow> i \<notin> set js \<Longrightarrow>
            i \<in> set (suspended q) \<and> ps \<noteq> [] \<and> (\<forall>p \<in> set ps. p < next_call q \<and> status q p = Running)"
    and "distinct js"
    and "\<And>j. j \<in> set js \<Longrightarrow> j < next_call q \<and> status q j \<noteq> Running \<and> j \<notin> set (suspended q)"
  using assms unfolding ceiling_mid_def by blast+

lemma ceiling_midI:
  assumes "queue_ok q"
    and "distinct (map (call_key q) [0..<next_call q])"
    and "\<And>i. i < next_call q \<Longrightarrow> status q i = Running \<Longrightarrow> (call_key q i, i) \<in> set (operationQueue q)"
    and "distinct (map fst (operationQueue q))"
    and "length (operationQueue q) \<le> MAX_CONCURRENT_OPERATIONS"
    and "\<And>i x. i < next_call q \<Longrightarrow> status q i \<noteq> AwaitExisting x"
    and "\<And>i. i < next_call q \<Longrightarrow> status q i = Entered \<Longrightarrow> i \<in> set js"
    and "\<And>i ps. i < next_call q \<Longrightarrow> status q i = AwaitRace ps \<Longrightarrow> i \<notin> set js \<Longrightarrow>
            i \<in> set (suspended q) \<and> ps \<noteq> [] \<and> (\<forall>p \<in> set ps. p < next_call q \<and> status q p = Running)"
    and "distinct js"
    and "\<And>j. j \<in> set js \<Longrightarrow> j < next_call q \<and> status q j \<noteq> Running \<and> j \<notin> set (suspended q)"
  shows "ceiling_mid js q"
  unfolding ceiling_mid_def using assms by blast

text \<open>A woken call goes on: one step of the three ways it can take.\<close>

lemma ceiling_mid_start:
  assumes "ceiling_mid (j # js) q" and "\<not> MAX_CONCURRENT_OPERATIONS \<le> length (operationQueue q)"
  shows "ceiling_mid js (start_or_wait j q)"
proof -
  note c = ceiling_mid_parts [OF assms(1)]
  let ?q = "q\<lparr>status := (status q)(j := Running),
             operationQueue := AList.update (call_key q j) j (operationQueue q)\<rparr>"
  have sw: "start_or_wait j q = ?q" using assms(2) by (simp add: start_or_wait_def)
  have j: "j < next_call q" "status q j \<noteq> Running" "j \<notin> set (suspended q)"
    using c(10) [of j] by simp_all
  have jjs: "j \<notin> set js" "distinct js" using c(9) by simp_all
  have ok: "queue_ok ?q"
    using queue_ok_start_or_wait [OF c(1) j] unfolding sw .
  show ?thesis
    unfolding sw
  proof (rule ceiling_midI)
    show "queue_ok ?q" by (rule ok)
    show "distinct (map (call_key ?q) [0..<next_call ?q])" using c(2) by simp
    show "distinct (map fst (operationQueue ?q))" using c(4) by (simp add: distinct_update)
    show "length (operationQueue ?q) \<le> MAX_CONCURRENT_OPERATIONS"
      using assms(2) length_update_le [of "call_key q j" j "operationQueue q"] by simp
    show "distinct js" by (rule jjs)
  next
    fix i assume i: "i < next_call ?q" "status ?q i = Running"
    show "(call_key ?q i, i) \<in> set (operationQueue ?q)"
    proof (cases "i = j")
      case True
      then show ?thesis by (simp add: update_member)
    next
      case False
      then have "(call_key q i, i) \<in> set (operationQueue q)" using i c(3) [of i] by simp
      moreover have "call_key q i \<noteq> call_key q j"
        using c(2) _ j(1) False by (rule call_keys_differ) (use i in simp)
      ultimately show ?thesis using update_keeps_other by fastforce
    qed
  next
    fix i x assume "i < next_call ?q"
    then show "status ?q i \<noteq> AwaitExisting x" using c(6) [of i x] by simp
  next
    fix i assume "i < next_call ?q" "status ?q i = Entered"
    then show "i \<in> set js" using c(7) [of i] by (cases "i = j") simp_all
  next
    fix i ps assume i: "i < next_call ?q" "status ?q i = AwaitRace ps" "i \<notin> set js"
    then have ne: "i \<noteq> j" by auto
    then have "i \<in> set (suspended q) \<and> ps \<noteq> [] \<and> (\<forall>p \<in> set ps. p < next_call q \<and> status q p = Running)"
      using i c(8) [of i ps] by simp
    then show "i \<in> set (suspended ?q) \<and> ps \<noteq> [] \<and> (\<forall>p \<in> set ps. p < next_call ?q \<and> status ?q p = Running)"
      by simp
  next
    fix x assume x: "x \<in> set js"
    then have "x \<noteq> j" using jjs by auto
    then show "x < next_call ?q \<and> status ?q x \<noteq> Running \<and> x \<notin> set (suspended ?q)"
      using c(10) [of x] x by simp
  qed
qed

lemma ceiling_mid_wait:
  assumes "ceiling_mid (j # js) q" and "MAX_CONCURRENT_OPERATIONS \<le> length (operationQueue q)"
  shows "ceiling_mid js (start_or_wait j q)"
proof -
  note c = ceiling_mid_parts [OF assms(1)]
  let ?ps = "map snd (operationQueue q)"
  let ?q = "q\<lparr>status := (status q)(j := AwaitRace ?ps), suspended := suspended q @ [j]\<rparr>"
  have sw: "start_or_wait j q = ?q" using assms(2) by (simp add: start_or_wait_def)
  have j: "j < next_call q" "status q j \<noteq> Running" "j \<notin> set (suspended q)"
    using c(10) [of j] by simp_all
  have jjs: "j \<notin> set js" "distinct js" using c(9) by simp_all
  have ok: "queue_ok ?q"
    using queue_ok_start_or_wait [OF c(1) j] unfolding sw .
  have ne: "?ps \<noteq> []" using assms(2) by (auto simp: MAX_CONCURRENT_OPERATIONS_def)
  have run: "p < next_call q \<and> status q p = Running" if "p \<in> set ?ps" for p
    using c(1) that by (auto simp: queue_ok_def)
  show ?thesis
    unfolding sw
  proof (rule ceiling_midI)
    show "queue_ok ?q" by (rule ok)
    show "distinct (map (call_key ?q) [0..<next_call ?q])" using c(2) by simp
    show "distinct (map fst (operationQueue ?q))" using c(4) by simp
    show "length (operationQueue ?q) \<le> MAX_CONCURRENT_OPERATIONS" using c(5) by simp
    show "distinct js" by (rule jjs)
  next
    fix i assume i: "i < next_call ?q" "status ?q i = Running"
    then have "i \<noteq> j" by auto
    then show "(call_key ?q i, i) \<in> set (operationQueue ?q)" using i c(3) [of i] by simp
  next
    fix i x assume "i < next_call ?q"
    then show "status ?q i \<noteq> AwaitExisting x" using c(6) [of i x] by simp
  next
    fix i assume "i < next_call ?q" "status ?q i = Entered"
    then show "i \<in> set js" using c(7) [of i] by (cases "i = j") simp_all
  next
    fix i ps assume i: "i < next_call ?q" "status ?q i = AwaitRace ps" "i \<notin> set js"
    have notj: "p \<noteq> j" if "status q p = Running" for p using that j(2) by auto
    show "i \<in> set (suspended ?q) \<and> ps \<noteq> [] \<and> (\<forall>p \<in> set ps. p < next_call ?q \<and> status ?q p = Running)"
    proof (cases "i = j")
      case True
      then have "ps = ?ps" using i(2) by simp
      then show ?thesis using True ne run notj by auto
    next
      case False
      then have "i \<in> set (suspended q) \<and> ps \<noteq> [] \<and> (\<forall>p \<in> set ps. p < next_call q \<and> status q p = Running)"
        using i c(8) [of i ps] by simp
      then show ?thesis using notj by auto
    qed
  next
    fix x assume x: "x \<in> set js"
    then have "x \<noteq> j" using jjs by auto
    then show "x < next_call ?q \<and> status ?q x \<noteq> Running \<and> x \<notin> set (suspended ?q)"
      using c(10) [of x] x by simp
  qed
qed

lemma ceiling_mid_reject:
  assumes "ceiling_mid (j # js) q"
  shows "ceiling_mid js (q\<lparr>status := (status q)(j := Rejected e)\<rparr>)"
proof -
  note c = ceiling_mid_parts [OF assms(1)]
  let ?q = "q\<lparr>status := (status q)(j := Rejected e)\<rparr>"
  have j: "j < next_call q" "status q j \<noteq> Running" "j \<notin> set (suspended q)"
    using c(10) [of j] by simp_all
  have jjs: "j \<notin> set js" "distinct js" using c(9) by simp_all
  have ok: "queue_ok ?q"
    using queue_ok_resume [OF c(1) j, of "Failed e"] by (simp add: resume_simps)
  show ?thesis
  proof (rule ceiling_midI)
    show "queue_ok ?q" by (rule ok)
    show "distinct (map (call_key ?q) [0..<next_call ?q])" using c(2) by simp
    show "distinct (map fst (operationQueue ?q))" using c(4) by simp
    show "length (operationQueue ?q) \<le> MAX_CONCURRENT_OPERATIONS" using c(5) by simp
    show "distinct js" by (rule jjs)
  next
    fix i assume i: "i < next_call ?q" "status ?q i = Running"
    then have "i \<noteq> j" by auto
    then show "(call_key ?q i, i) \<in> set (operationQueue ?q)" using i c(3) [of i] by simp
  next
    fix i x assume "i < next_call ?q"
    then show "status ?q i \<noteq> AwaitExisting x" using c(6) [of i x] by simp
  next
    fix i assume "i < next_call ?q" "status ?q i = Entered"
    then show "i \<in> set js" using c(7) [of i] by (cases "i = j") simp_all
  next
    fix i ps assume i: "i < next_call ?q" "status ?q i = AwaitRace ps" "i \<notin> set js"
    have notj: "p \<noteq> j" if "status q p = Running" for p using that j(2) by auto
    from i have "i \<noteq> j" by auto
    then have "i \<in> set (suspended q) \<and> ps \<noteq> [] \<and> (\<forall>p \<in> set ps. p < next_call q \<and> status q p = Running)"
      using i c(8) [of i ps] by simp
    then show "i \<in> set (suspended ?q) \<and> ps \<noteq> [] \<and> (\<forall>p \<in> set ps. p < next_call ?q \<and> status ?q p = Running)"
      using notj by auto
  next
    fix x assume x: "x \<in> set js"
    then have "x \<noteq> j" using jjs by auto
    then show "x < next_call ?q \<and> status ?q x \<noteq> Running \<and> x \<notin> set (suspended ?q)"
      using c(10) [of x] x by simp
  qed
qed

lemma ceiling_mid_resume:
  assumes "ceiling_mid (j # js) q"
  shows "ceiling_mid js (resume r j q)"
proof (cases r)
  case Fulfilled
  then show ?thesis
    using ceiling_mid_start [OF assms] ceiling_mid_wait [OF assms]
    by (cases "MAX_CONCURRENT_OPERATIONS \<le> length (operationQueue q)") (simp_all add: resume_simps)
next
  case (Failed e)
  then show ?thesis using ceiling_mid_reject [OF assms] by (simp add: resume_simps)
qed

lemma ceiling_mid_fold: "ceiling_mid js q \<Longrightarrow> ceiling_ok (fold (resume r) js q)"
proof (induction js arbitrary: q)
  case Nil
  then show ?case by (simp add: ceiling_ok_def)
next
  case (Cons j js)
  from ceiling_mid_resume [OF Cons.prems] show ?case using Cons.IH by simp
qed

lemma ceiling_ok_settle:
  assumes "ceiling_ok q"
  shows "ceiling_ok (settle i r q)"
proof (cases "status q i = Running")
  case False
  then show ?thesis using assms by (simp add: settle_def)
next
  case True
  note c = ceiling_mid_parts [OF assms [unfolded ceiling_ok_def]]
  define q1 where "q1 = q\<lparr>status := (status q)(i := Settled r),
                       operationQueue := AList.delete (call_key q i) (operationQueue q)\<rparr>"
  define js where "js = woken i q1"
  define q2 where "q2 = q1\<lparr>suspended := filter (\<lambda>j. j \<notin> set js) (suspended q1)\<rparr>"
  have st: "settle i r q = fold (resume r) js q2"
    using True by (simp add: settle_def Let_def q1_def js_def q2_def)
  have i: "i < next_call q" using c(1) True by (auto simp: queue_ok_def intro: leI)
  have ok2: "queue_ok (settle i r q)" using c(1) by (rule queue_ok_settle)
  have ok1: "queue_ok q1" using c(1) True by (auto simp: queue_ok_def q1_def set_delete)
  have okq2: "queue_ok q2" using ok1 by (auto simp: queue_ok_def q2_def)
  have fr: "next_call q2 = next_call q" "call_key q2 = call_key q"
    "status q2 = (status q)(i := Settled r)"
    "operationQueue q2 = AList.delete (call_key q i) (operationQueue q)"
    "suspended q2 = filter (\<lambda>j. j \<notin> set js) (suspended q)"
    by (simp_all add: q2_def q1_def)
  have js_set: "set js = {j \<in> set (suspended q). j \<noteq> i \<and>
      (status q j = AwaitExisting i \<or> races_on i (status q j))}"
    by (auto simp: js_def woken_set q1_def)
  have mid: "ceiling_mid js q2"
  proof (rule ceiling_midI)
    show "queue_ok q2" by (rule okq2)
    show "distinct (map (call_key q2) [0..<next_call q2])" using c(2) by (simp add: fr)
    show "distinct (map fst (operationQueue q2))" using c(4) by (simp add: fr distinct_delete)
    show "length (operationQueue q2) \<le> MAX_CONCURRENT_OPERATIONS"
      using c(5) length_delete_le [of "call_key q i" "operationQueue q"] by (simp add: fr)
    show "distinct js" unfolding js_def using ok1 by (intro woken_distinct) (simp add: queue_ok_def)
  next
    fix x assume x: "x < next_call q2" "status q2 x = Running"
    then have ne: "x \<noteq> i" by (auto simp: fr)
    then have "(call_key q x, x) \<in> set (operationQueue q)" using x c(3) [of x] by (simp add: fr)
    moreover have "call_key q x \<noteq> call_key q i"
      using c(2) _ i ne by (rule call_keys_differ) (use x in \<open>simp add: fr\<close>)
    ultimately show "(call_key q2 x, x) \<in> set (operationQueue q2)" by (simp add: fr set_delete)
  next
    fix x y assume "x < next_call q2"
    then show "status q2 x \<noteq> AwaitExisting y" using c(6) [of x y] by (simp add: fr)
  next
    fix x assume "x < next_call q2" "status q2 x = Entered"
    then show "x \<in> set js" using c(7) [of x] by (cases "x = i") (simp_all add: fr)
  next
    fix x ps assume x: "x < next_call q2" "status q2 x = AwaitRace ps" "x \<notin> set js"
    then have ne: "x \<noteq> i" by (auto simp: fr)
    then have old: "x \<in> set (suspended q)" "ps \<noteq> []" "\<forall>p \<in> set ps. p < next_call q \<and> status q p = Running"
      using x c(8) [of x ps] by (simp_all add: fr)
    have "i \<notin> set ps" using x(2,3) old(1) ne by (auto simp: js_set fr)
    then show "x \<in> set (suspended q2) \<and> ps \<noteq> [] \<and> (\<forall>p \<in> set ps. p < next_call q2 \<and> status q2 p = Running)"
      using old x(3) by (auto simp: fr)
  next
    fix j assume j: "j \<in> set js"
    then have "j \<in> set (suspended q)" "j \<noteq> i" by (simp_all add: js_set)
    moreover have "status q j \<noteq> Running" using j by (auto simp: js_set)
    moreover have "j < next_call q" using c(1) \<open>j \<in> set (suspended q)\<close> by (simp add: queue_ok_def)
    ultimately show "j < next_call q2 \<and> status q2 j \<noteq> Running \<and> j \<notin> set (suspended q2)"
      using j by (simp add: fr)
  qed
  then show ?thesis unfolding st by (rule ceiling_mid_fold)
qed

lemma ceiling_ok_queuedOperation:
  assumes "ceiling_ok q" and "k \<notin> set (map (call_key q) [0..<next_call q])"
  shows "ceiling_ok (queuedOperation k q)"
proof -
  note c = ceiling_mid_parts [OF assms(1) [unfolded ceiling_ok_def]]
  define n where "n = next_call q"
  define q1 where "q1 = q\<lparr>next_call := Suc n, call_key := (call_key q)(n := k)\<rparr>"
  have fr: "status q1 = status q" "next_call q1 = Suc n" "suspended q1 = suspended q"
    "operationQueue q1 = operationQueue q" "call_key q1 = (call_key q)(n := k)"
    by (simp_all add: q1_def)
  have nokey: "map_of (operationQueue q) k = None"
  proof (rule ccontr)
    assume "map_of (operationQueue q) k \<noteq> None"
    then obtain i where "map_of (operationQueue q) k = Some i" by auto
    then have "(k, i) \<in> set (operationQueue q)" by (rule map_of_SomeD)
    then have "i < next_call q" "call_key q i = k" using c(1) by (auto simp: queue_ok_def)
    then show False using assms(2) by auto
  qed
  have qo: "queuedOperation k q = start_or_wait n q1"
    using nokey by (simp add: queuedOperation_def Let_def q1_def n_def)
  have e: "status q n = Entered" using c(1) by (simp add: queue_ok_def n_def)
  have old: "x < n" if "x < Suc n" "status q x \<noteq> Entered" for x
    using that e by (cases "x = n") simp_all
  have ok1: "queue_ok q1"
    unfolding queue_ok_def fr
  proof (intro conjI ballI allI impI)
    fix p assume p: "p \<in> set (operationQueue q)"
    obtain k' i where ki: "p = (k', i)" by (cases p)
    then have "i < n \<and> status q i = Running \<and> call_key q i = k'"
      using c(1) p by (auto simp: queue_ok_def n_def)
    then show "case p of (k', i) \<Rightarrow> i < Suc n \<and> status q i = Running \<and> ((call_key q)(n := k)) i = k'"
      using ki by auto
  next
    show "distinct (suspended q)" using c(1) by (simp add: queue_ok_def)
  next
    fix x assume "x \<in> set (suspended q)"
    then have "x < n" using c(1) by (simp add: queue_ok_def n_def)
    then show "x < Suc n" by simp
  next
    fix x assume "Suc n \<le> x"
    then have "next_call q \<le> x" by (simp add: n_def)
    then show "status q x = Entered" using c(1) by (simp add: queue_ok_def)
  qed
  have keys1: "map (call_key q1) [0..<next_call q1] = map (call_key q) [0..<n] @ [k]"
    by (simp add: fr)
  have mid: "ceiling_mid [n] q1"
  proof (rule ceiling_midI)
    show "queue_ok q1" by (rule ok1)
    show "distinct (map (call_key q1) [0..<next_call q1])"
      unfolding keys1 using c(2) assms(2) by (simp add: n_def)
    show "distinct (map fst (operationQueue q1))" using c(4) by (simp add: fr)
    show "length (operationQueue q1) \<le> MAX_CONCURRENT_OPERATIONS" using c(5) by (simp add: fr)
    show "distinct [n]" by simp
  next
    fix x assume x: "x < next_call q1" "status q1 x = Running"
    then have "x < n" by (intro old) (simp_all add: fr)
    then show "(call_key q1 x, x) \<in> set (operationQueue q1)"
      using x c(3) [of x] by (simp add: fr n_def)
  next
    fix x y assume x: "x < next_call q1"
    show "status q1 x \<noteq> AwaitExisting y"
    proof (cases "x = n")
      case True
      then show ?thesis using e by (simp add: fr)
    next
      case False
      then have "x < next_call q" using x by (simp add: fr n_def)
      then show ?thesis using c(6) [of x y] by (simp add: fr)
    qed
  next
    fix x assume x: "x < next_call q1" "status q1 x = Entered"
    show "x \<in> set [n]"
    proof (rule ccontr)
      assume "x \<notin> set [n]"
      then have "x < next_call q" using x(1) by (simp add: fr n_def)
      then have "x \<in> set []" using c(7) [of x] x(2) by (simp add: fr)
      then show False by simp
    qed
  next
    fix x ps assume x: "x < next_call q1" "status q1 x = AwaitRace ps" "x \<notin> set [n]"
    then have "x < next_call q" by (simp add: fr n_def)
    then have "x \<in> set (suspended q) \<and> ps \<noteq> [] \<and> (\<forall>p \<in> set ps. p < next_call q \<and> status q p = Running)"
      using x(2) c(8) [of x ps] by (simp add: fr)
    then show "x \<in> set (suspended q1) \<and> ps \<noteq> [] \<and> (\<forall>p \<in> set ps. p < next_call q1 \<and> status q1 p = Running)"
      unfolding fr n_def by (simp add: less_Suc_eq)
  next
    fix j assume "j \<in> set [n]"
    then have j: "j = n" by simp
    have "n \<notin> set (suspended q)"
    proof
      assume "n \<in> set (suspended q)"
      then have "n < next_call q" using c(1) by (simp add: queue_ok_def)
      then show False by (simp add: n_def)
    qed
    then show "j < next_call q1 \<and> status q1 j \<noteq> Running \<and> j \<notin> set (suspended q1)"
      using j e by (simp add: fr)
  qed
  have "ceiling_ok (fold (resume Fulfilled) [n] q1)" using mid by (rule ceiling_mid_fold)
  then show ?thesis by (simp add: qo resume_simps)
qed

lemma ceiling_ok_empty: "ceiling_ok empty_queue"
  by (simp add: ceiling_ok_def ceiling_mid_def queue_ok_empty) (simp add: empty_queue_def)

lemma call_key_settle [simp]: "call_key (settle i r q) = call_key q"
  by (simp add: settle_def Let_def)

lemma call_key_queuedOperation [simp]:
  "call_key (queuedOperation k q) = (call_key q)(next_call q := k)"
  by (simp add: queuedOperation_def Let_def split: option.splits)

lemma keys_queuedOperation:
  "map (call_key (queuedOperation k q)) [0..<next_call (queuedOperation k q)]
     = map (call_key q) [0..<next_call q] @ [k]"
  by simp

lemma keys_run_queue:
  "map (call_key (run_queue evs q)) [0..<next_call (run_queue evs q)]
     = map (call_key q) [0..<next_call q] @ enqueued_keys evs"
proof (induction evs arbitrary: q)
  case Nil
  show ?case by (simp add: run_queue_def)
next
  case (Cons ev evs)
  have "run_queue (ev # evs) q = run_queue evs (queue_step ev q)" by (simp add: run_queue_def)
  then show ?case using Cons.IH [of "queue_step ev q"]
    by (cases ev) simp_all
qed

lemma ceiling_ok_run:
  assumes "ceiling_ok q" and "distinct (map (call_key q) [0..<next_call q] @ enqueued_keys evs)"
  shows "ceiling_ok (run_queue evs q)"
  using assms
proof (induction evs arbitrary: q)
  case Nil
  then show ?case by (simp add: run_queue_def)
next
  case (Cons ev evs)
  have r: "run_queue (ev # evs) q = run_queue evs (queue_step ev q)" by (simp add: run_queue_def)
  show ?case
  proof (cases ev)
    case (Enqueue k)
    have "k \<notin> set (map (call_key q) [0..<next_call q])" using Cons.prems(2) Enqueue by auto
    then have "ceiling_ok (queue_step ev q)"
      using Cons.prems(1) Enqueue by (simp add: ceiling_ok_queuedOperation)
    moreover have "distinct (map (call_key (queue_step ev q)) [0..<next_call (queue_step ev q)]
        @ enqueued_keys evs)"
      using Cons.prems(2) Enqueue by simp
    ultimately show ?thesis unfolding r by (rule Cons.IH)
  next
    case (Settle i s)
    have "ceiling_ok (queue_step ev q)" using Cons.prems(1) Settle by (simp add: ceiling_ok_settle)
    moreover have "distinct (map (call_key (queue_step ev q)) [0..<next_call (queue_step ev q)]
        @ enqueued_keys evs)"
      using Cons.prems(2) Settle by simp
    ultimately show ?thesis unfolding r by (rule Cons.IH)
  qed
qed

lemma ceiling_ok_reached:
  "distinct (enqueued_keys evs) \<Longrightarrow> ceiling_ok (run_queue evs empty_queue)"
  using ceiling_ok_empty by (rule ceiling_ok_run) (simp add: empty_queue_def)

subsection \<open>The ceiling\<close>

lemma running_bounded:
  assumes "ceiling_ok q"
  shows "length (running q) \<le> MAX_CONCURRENT_OPERATIONS"
proof -
  note c = ceiling_mid_parts [OF assms [unfolded ceiling_ok_def]]
  let ?f = "\<lambda>i. (call_key q i, i)"
  have d: "distinct (running q)" by (simp add: running_def)
  have "inj_on ?f (set (running q))" by (simp add: inj_on_def)
  then have "distinct (map ?f (running q))" using d by (simp add: distinct_map)
  then have "length (running q) = card (set (map ?f (running q)))"
    using distinct_card [of "map ?f (running q)"] by simp
  also have "\<dots> \<le> card (set (operationQueue q))"
  proof (rule card_mono)
    show "finite (set (operationQueue q))" by simp
    show "set (map ?f (running q)) \<subseteq> set (operationQueue q)"
      using c(3) by (auto simp: running_def)
  qed
  also have "\<dots> \<le> length (operationQueue q)" by (rule card_length)
  finally show ?thesis using c(5) by simp
qed

subsection \<open>Where a call can be, and how a call comes to be rejected\<close>

lemma places_with_different_keys:
  assumes "ceiling_ok q" and "i < next_call q"
  shows "status q i = Running \<or> (\<exists>r. status q i = Settled r) \<or> (\<exists>e. status q i = Rejected e)
       \<or> (\<exists>ps. status q i = AwaitRace ps \<and> ps \<noteq> [] \<and> set ps \<subseteq> set (running q))"
proof -
  note c = ceiling_mid_parts [OF assms(1) [unfolded ceiling_ok_def]]
  show ?thesis
  proof (cases "status q i")
    case Entered
    then show ?thesis using c(7) [OF assms(2)] by simp
  next
    case (AwaitExisting j)
    then show ?thesis using c(6) [OF assms(2)] by simp
  next
    case (AwaitRace ps)
    then have "ps \<noteq> []" "\<forall>p \<in> set ps. p < next_call q \<and> status q p = Running"
      using c(8) [OF assms(2), of ps] by simp_all
    then show ?thesis using AwaitRace by (auto simp: running_def)
  next
    case Running
    then show ?thesis by simp
  next
    case (Settled s)
    then show ?thesis by simp
  next
    case (Rejected e)
    then show ?thesis by simp
  qed
qed

lemma idle_means_over:
  assumes "ceiling_ok q" and "running q = []" and "i < next_call q"
  shows "over (status q i)"
proof -
  from places_with_different_keys [OF assms(1,3)] show ?thesis
  proof (elim disjE exE conjE)
    assume "status q i = Running"
    then have "i \<in> set (running q)" using assms(3) by (simp add: running_def)
    then show ?thesis using assms(2) by simp
  next
    fix r assume "status q i = Settled r"
    then show ?thesis by simp
  next
    fix e assume "status q i = Rejected e"
    then show ?thesis by simp
  next
    fix ps assume "ps \<noteq> []" "set ps \<subseteq> set (running q)"
    then show ?thesis using assms(2) by (cases ps) auto
  qed
qed

lemma start_or_wait_not_lost: "\<not> lost (status (start_or_wait j q) j)"
  by (simp add: start_or_wait_def)

lemma fold_fulfilled_lost:
  "lost (status (fold (resume Fulfilled) js q) x) \<Longrightarrow> lost (status q x)"
proof (induction js arbitrary: q)
  case Nil
  then show ?case by simp
next
  case (Cons j js)
  then have l: "lost (status (start_or_wait j q) x)" by (simp add: resume_simps)
  show ?case
  proof (cases "x = j")
    case True
    then show ?thesis using l start_or_wait_not_lost [of j q] by simp
  next
    case False
    then show ?thesis using l by simp
  qed
qed

lemma settle_fulfilled_lost:
  assumes "lost (status (settle i Fulfilled q) x)"
  shows "lost (status q x)"
proof (cases "status q i = Running")
  case False
  then show ?thesis using assms by (simp add: settle_def)
next
  case True
  define q1 where "q1 = q\<lparr>status := (status q)(i := Settled Fulfilled),
                       operationQueue := AList.delete (call_key q i) (operationQueue q)\<rparr>"
  define q2 where "q2 = q1\<lparr>suspended := filter (\<lambda>j. j \<notin> set (woken i q1)) (suspended q1)\<rparr>"
  have "settle i Fulfilled q = fold (resume Fulfilled) (woken i q1) q2"
    using True by (simp add: settle_def Let_def q1_def q2_def)
  then have "lost (status q2 x)" using assms fold_fulfilled_lost by simp
  then show ?thesis by (cases "x = i") (simp_all add: q2_def q1_def)
qed

lemma status_queuedOperation_other:
  "x \<noteq> next_call q \<Longrightarrow> status (queuedOperation k q) x = status q x"
  by (simp add: queuedOperation_def Let_def start_or_wait_def split: option.splits)

lemma status_queuedOperation_new:
  "status (queuedOperation k q) (next_call q) \<noteq> Rejected e"
  by (simp add: queuedOperation_def Let_def start_or_wait_def split: option.splits)

lemma races_onD: "races_on p s \<Longrightarrow> \<exists>ps. s = AwaitRace ps \<and> p \<in> set ps"
  by (cases s) simp_all

lemma rejection_cause:
  assumes "status (queue_step ev q) i = Rejected e" and "status q i \<noteq> Rejected e"
  shows "\<exists>p. ev = Settle p (Failed e) \<and> status q p = Running
             \<and> (status q i = AwaitExisting p \<or> races_on p (status q i))"
proof (cases ev)
  case (Enqueue k)
  then show ?thesis
    using assms status_queuedOperation_other [of i q k] status_queuedOperation_new [of k q e]
    by (cases "i = next_call q") auto
next
  case (Settle p r)
  have run: "status q p = Running"
  proof (rule ccontr)
    assume "status q p \<noteq> Running"
    then show False using assms Settle by (simp add: settle_def)
  qed
  define q1 where "q1 = q\<lparr>status := (status q)(p := Settled r),
                       operationQueue := AList.delete (call_key q p) (operationQueue q)\<rparr>"
  define q2 where "q2 = q1\<lparr>suspended := filter (\<lambda>j. j \<notin> set (woken p q1)) (suspended q1)\<rparr>"
  have s: "settle p r q = fold (resume r) (woken p q1) q2"
    using run by (simp add: settle_def Let_def q1_def q2_def)
  have rej: "status (fold (resume r) (woken p q1) q2) i = Rejected e"
    using assms(1) Settle s by simp
  have s2: "status q2 i = (if i = p then Settled r else status q i)"
    by (simp add: q2_def q1_def)
  have w: "i \<in> set (woken p q1)"
  proof (rule ccontr)
    assume "i \<notin> set (woken p q1)"
    then have "status q2 i = Rejected e" using rej by (simp add: fold_resume_status_other)
    then show False using s2 assms(2) by (simp split: if_splits)
  qed
  then have st1: "status q1 i = AwaitExisting p \<or> races_on p (status q1 i)"
    by (simp add: woken_set)
  have ne: "i \<noteq> p"
  proof
    assume "i = p"
    then have "status q1 i = Settled r" by (simp add: q1_def)
    then show False using st1 by auto
  qed
  then have st: "status q i = AwaitExisting p \<or> races_on p (status q i)"
    using st1 by (simp add: q1_def)
  have "r = Failed e"
  proof (cases r)
    case Fulfilled
    then have "lost (status (fold (resume Fulfilled) (woken p q1) q2) i)" using rej by simp
    then have "lost (status q2 i)" by (rule fold_fulfilled_lost)
    then have "lost (status q i)" using s2 ne by simp
    then show ?thesis using st by (auto dest: races_onD)
  next
    case (Failed e')
    then have "status (fold (resume (Failed e')) (woken p q1) q2) i = Rejected e'"
      using w by (simp add: fold_resume_failed)
    then show ?thesis using rej Failed by simp
  qed
  then show ?thesis using Settle run st by simp
qed

subsection \<open>Every call comes to an end\<close>

lemma settle_status_self:
  assumes "status q i = Running"
  shows "status (settle i r q) i = Settled r"
proof -
  have "i \<notin> set (woken i (q\<lparr>status := (status q)(i := Settled r),
                 operationQueue := AList.delete (call_key q i) (operationQueue q)\<rparr>))"
    by (simp add: woken_set)
  then show ?thesis using assms by (simp add: settle_def Let_def fold_resume_status_other)
qed

lemma settle_over_stay:
  assumes "over (status q x)"
  shows "status (settle i r q) x = status q x"
proof (cases "status q i = Running")
  case False
  then show ?thesis by (simp add: settle_def)
next
  case True
  then have "x \<noteq> i" using assms by auto
  moreover have "status q x \<noteq> AwaitExisting i" "\<not> races_on i (status q x)"
    using assms by (cases "status q x"; simp)+
  ultimately show ?thesis by (rule settle_status_unwoken)
qed

lemma unfinished_settle:
  assumes "status q i = Running" and "i < next_call q"
  shows "unfinished (settle i r q) \<subset> unfinished q"
proof
  show "unfinished (settle i r q) \<subseteq> unfinished q"
    using settle_over_stay [of q _ i r] by (auto simp: unfinished_def)
  have "i \<in> unfinished q" using assms by (simp add: unfinished_def)
  moreover have "i \<notin> unfinished (settle i r q)"
    using settle_status_self [OF assms(1)] by (simp add: unfinished_def)
  ultimately show "unfinished (settle i r q) \<noteq> unfinished q" by auto
qed

lemma finite_unfinished: "finite (unfinished q)"
  by (simp add: unfinished_def)

lemma card_unfinished_le: "card (unfinished q) \<le> next_call q"
proof -
  have "unfinished q \<subseteq> {..<next_call q}" by (auto simp: unfinished_def)
  then have "card (unfinished q) \<le> card {..<next_call q}" by (intro card_mono) simp_all
  then show ?thesis by simp
qed

lemma drain_ends:
  assumes "ceiling_ok q"
    and "\<forall>q'. running q' \<noteq> [] \<longrightarrow> fst (pick q') \<in> set (running q')"
    and "card (unfinished q) \<le> n" and "i < next_call q"
  shows "over (status (drain pick n q) i) \<and> next_call (drain pick n q) = next_call q"
  using assms
proof (induction n arbitrary: q)
  case 0
  then have "unfinished q = {}" using finite_unfinished [of q] by simp
  then show ?case using "0.prems"(4) by (auto simp: unfinished_def)
next
  case (Suc n)
  show ?case
  proof (cases "running q = []")
    case True
    then show ?thesis using idle_means_over [OF Suc.prems(1) True Suc.prems(4)] by simp
  next
    case False
    let ?i = "fst (pick q)"
    let ?q = "settle ?i (snd (pick q)) q"
    have "?i \<in> set (running q)" using Suc.prems(2) False by simp
    then have p: "status q ?i = Running" "?i < next_call q" by (simp_all add: running_def)
    have "card (unfinished ?q) < card (unfinished q)"
      using unfinished_settle [OF p] finite_unfinished by (intro psubset_card_mono)
    then have le: "card (unfinished ?q) \<le> n" using Suc.prems(3) by simp
    have "over (status (drain pick n ?q) i) \<and> next_call (drain pick n ?q) = next_call ?q"
      using Suc.prems(1,2,4) le
      by (intro Suc.IH) (simp_all add: ceiling_ok_settle)
    then show ?thesis using False by simp
  qed
qed

lemma drain_fulfilled_lost:
  assumes "\<forall>q'. snd (pick q') = Fulfilled"
  shows "lost (status (drain pick n q) x) \<Longrightarrow> lost (status q x)"
proof (induction n arbitrary: q)
  case 0
  then show ?case by simp
next
  case (Suc n)
  show ?case
  proof (cases "running q = []")
    case True
    then show ?thesis using Suc.prems by simp
  next
    case False
    then have "lost (status (drain pick n (settle (fst (pick q)) Fulfilled q)) x)"
      using Suc.prems assms by simp
    then have "lost (status (settle (fst (pick q)) Fulfilled q) x)" by (rule Suc.IH)
    then show ?thesis by (rule settle_fulfilled_lost)
  qed
qed

lemma over_cases: "over s \<Longrightarrow> (\<exists>r. s = Settled r) \<or> (\<exists>e. s = Rejected e)"
  by (cases s) simp_all

lemma over_not_lost: "over s \<Longrightarrow> \<not> lost s \<Longrightarrow> s = Settled Fulfilled"
  by (cases s rule: lost.cases) simp_all

lemma not_lostI: "\<forall>e. s \<noteq> Rejected e \<Longrightarrow> \<forall>e. s \<noteq> Settled (Failed e) \<Longrightarrow> \<not> lost s"
  by (cases s rule: lost.cases) simp_all

subsection \<open>A failure while calls wait at the ceiling\<close>

lemma failure_rejects_racer:
  assumes "status q j = AwaitRace ps" and "i \<in> set ps" and "j \<in> set (suspended q)"
    and "status q i = Running"
  shows "status (settle i (Failed e) q) j = Rejected e"
proof -
  have "i \<noteq> j" using assms(1,4) by auto
  then have "j \<in> set (woken i (q\<lparr>status := (status q)(i := Settled (Failed e)),
                 operationQueue := AList.delete (call_key q i) (operationQueue q)\<rparr>))"
    using assms(1,2,3) by (simp add: woken_set)
  then show ?thesis
    using assms(4) by (simp add: settle_def Let_def fold_resume_failed)
qed

lemma next_call_run_queue:
  "next_call (run_queue evs q) = next_call q + length (enqueued_keys evs)"
proof -
  have "length (map (call_key (run_queue evs q)) [0..<next_call (run_queue evs q)])
      = length (map (call_key q) [0..<next_call q] @ enqueued_keys evs)"
    by (simp only: keys_run_queue)
  then show ?thesis by simp
qed

text \<open>
  Claim C5, with the call that a failure rejects set apart. Let calls be made for keys
  that are all different, in any number and interleaved in any way with the settling of
  operations, successful or not, and let \<open>q\<close> be the state reached. Then:
  \<^item> at most ten operations execute;
  \<^item> every call made so far is running, has settled, has been rejected, or waits at the
    ceiling for a race among operations that are running, at least one;
  \<^item> when one of the operations that such a call races fails with \<open>e\<close>, the call is
    rejected with \<open>e\<close> and stays rejected whatever happens later: its operation is never
    started;
  \<^item> this is the only way in which a call comes to be rejected: if an event \<open>ev\<close> takes a
    call to the place \<open>Rejected e'\<close>, the event is the failure with \<open>e'\<close> of an operation
    that the call was racing at the ceiling;
  \<^item> when the running operations settle one after the other, in whatever order and
    each with success or failure, every call made so far comes to an end: its operation
    has settled, or the call has been rejected;
  \<^item> when the operations that settle from \<open>q\<close> on all succeed, every call that is not
    already rejected in \<open>q\<close>, and whose operation has not already failed in \<open>q\<close>,
    completes with success, whatever failed before \<open>q\<close>.
\<close>

theorem ceiling_holds_and_queue_drains:
  assumes "distinct (enqueued_keys evs)" and "q = run_queue evs empty_queue"
  shows "length (running q) \<le> MAX_CONCURRENT_OPERATIONS
       \<and> (\<forall>i < next_call q.
            status q i = Running \<or> (\<exists>r. status q i = Settled r) \<or> (\<exists>e. status q i = Rejected e)
            \<or> (\<exists>ps. status q i = AwaitRace ps \<and> ps \<noteq> [] \<and> set ps \<subseteq> set (running q)))
       \<and> (\<forall>i < next_call q. \<forall>ps p.
            status q i = AwaitRace ps \<and> p \<in> set ps \<longrightarrow>
              status q p = Running
              \<and> status (run_queue later (settle p (Failed e) q)) i = Rejected e)
       \<and> (\<forall>i e'. status (queue_step ev q) i = Rejected e' \<and> status q i \<noteq> Rejected e' \<longrightarrow>
            (\<exists>p ps. ev = Settle p (Failed e') \<and> status q p = Running
                    \<and> status q i = AwaitRace ps \<and> p \<in> set ps))
       \<and> ((\<forall>q'. running q' \<noteq> [] \<longrightarrow> fst (pick q') \<in> set (running q')) \<longrightarrow>
            (\<forall>i < next_call q.
               (\<exists>r. status (drain pick (next_call q) q) i = Settled r)
               \<or> (\<exists>e. status (drain pick (next_call q) q) i = Rejected e))
            \<and> ((\<forall>q'. snd (pick q') = Fulfilled) \<longrightarrow>
                 (\<forall>i < next_call q.
                    (\<forall>e. status q i \<noteq> Rejected e) \<and> (\<forall>e. status q i \<noteq> Settled (Failed e)) \<longrightarrow>
                      status (drain pick (next_call q) q) i = Settled Fulfilled)))"
proof -
  have ok: "ceiling_ok q" unfolding assms(2) using assms(1) by (rule ceiling_ok_reached)
  note c = ceiling_mid_parts [OF ok [unfolded ceiling_ok_def]]
  have A: "length (running q) \<le> MAX_CONCURRENT_OPERATIONS" using ok by (rule running_bounded)
  have P: "status q i = Running \<or> (\<exists>r. status q i = Settled r) \<or> (\<exists>e. status q i = Rejected e)
      \<or> (\<exists>ps. status q i = AwaitRace ps \<and> ps \<noteq> [] \<and> set ps \<subseteq> set (running q))"
    if "i < next_call q" for i
    using ok that by (rule places_with_different_keys)
  have B: "status q p = Running
      \<and> status (run_queue later (settle p (Failed e) q)) i = Rejected e"
    if "i < next_call q" "status q i = AwaitRace ps" "p \<in> set ps" for i ps p
  proof -
    have r: "i \<in> set (suspended q)" "status q p = Running"
      using c(8) [OF that(1,2)] that(3) by simp_all
    have "status (settle p (Failed e) q) i = Rejected e"
      using that(2,3) r by (rule failure_rejects_racer)
    moreover have "i < next_call (settle p (Failed e) q)" using that(1) by simp
    ultimately have "status (run_queue later (settle p (Failed e) q)) i = Rejected e"
      by (rule rejected_run)
    with r(2) show ?thesis by simp
  qed
  have R: "\<exists>p ps. ev = Settle p (Failed e') \<and> status q p = Running
                 \<and> status q i = AwaitRace ps \<and> p \<in> set ps"
    if "status (queue_step ev q) i = Rejected e'" "status q i \<noteq> Rejected e'" for i e'
  proof -
    from rejection_cause [OF that] obtain p where
      p: "ev = Settle p (Failed e')" "status q p = Running"
         "status q i = AwaitExisting p \<or> races_on p (status q i)" by blast
    have "status q i \<noteq> AwaitExisting p"
    proof (cases "i < next_call q")
      case True
      then show ?thesis by (rule c(6))
    next
      case False
      then have "status q i = Entered" using c(1) by (simp add: queue_ok_def)
      then show ?thesis by simp
    qed
    then have "races_on p (status q i)" using p(3) by simp
    then obtain ps where "status q i = AwaitRace ps" "p \<in> set ps" using races_onD by blast
    then show ?thesis using p(1,2) by blast
  qed
  have D: "(\<exists>r. status (drain pick (next_call q) q) i = Settled r)
         \<or> (\<exists>e. status (drain pick (next_call q) q) i = Rejected e)"
    if "\<forall>q'. running q' \<noteq> [] \<longrightarrow> fst (pick q') \<in> set (running q')" "i < next_call q" for i
    using drain_ends [OF ok that(1) card_unfinished_le that(2)] by (intro over_cases) simp
  have E: "status (drain pick (next_call q) q) i = Settled Fulfilled"
    if "\<forall>q'. running q' \<noteq> [] \<longrightarrow> fst (pick q') \<in> set (running q')"
      "\<forall>q'. snd (pick q') = Fulfilled" "i < next_call q"
      "\<forall>e. status q i \<noteq> Rejected e" "\<forall>e. status q i \<noteq> Settled (Failed e)" for i
  proof -
    have o: "over (status (drain pick (next_call q) q) i)"
      using drain_ends [OF ok that(1) card_unfinished_le that(3)] by simp
    have "\<not> lost (status q i)" using that(4,5) by (rule not_lostI)
    then have "\<not> lost (status (drain pick (next_call q) q) i)"
      using drain_fulfilled_lost [OF that(2)] by blast
    with o show ?thesis by (rule over_not_lost)
  qed
  show ?thesis using A P B R D E by blast
qed

theorem ceiling_holds_and_queue_drains_witness:
  "length (running (run_queue (map (\<lambda>c. Enqueue [c]) ''0123456789ab'') empty_queue)) \<le> 10
   \<and> status (drain (\<lambda>q. (hd (running q), Fulfilled)) 12
         (run_queue (map (\<lambda>c. Enqueue [c]) ''0123456789ab'') empty_queue)) 11 = Settled Fulfilled
   \<and> status (run_queue [Settle 4 Fulfilled]
         (settle 3 (Failed ''EACCES'')
            (run_queue (map (\<lambda>c. Enqueue [c]) ''0123456789ab'') empty_queue))) 11 = Rejected ''EACCES''
   \<and> (\<exists>p ps. Settle 3 (Failed ''EACCES'') = Settle p (Failed ''EACCES'')
         \<and> status (run_queue (map (\<lambda>c. Enqueue [c]) ''0123456789ab'') empty_queue) p = Running
         \<and> status (run_queue (map (\<lambda>c. Enqueue [c]) ''0123456789ab'') empty_queue) 11 = AwaitRace ps
         \<and> p \<in> set ps)"
proof -
  let ?evs = "map (\<lambda>c. Enqueue [c]) ''0123456789ab''"
  let ?q = "run_queue ?evs empty_queue"
  let ?pick = "\<lambda>q. (hd (running q), Fulfilled)"
  have d: "distinct (enqueued_keys ?evs)" by simp
  have n: "next_call ?q = 12" by (simp add: next_call_run_queue empty_queue_def)
  have pk: "\<forall>q'. running q' \<noteq> [] \<longrightarrow> fst (?pick q') \<in> set (running q')" by simp
  have pf: "\<forall>q'. snd (?pick q') = Fulfilled" by simp
  have st: "status ?q 11 = AwaitRace [0, 1, 2, 3, 4, 5, 6, 7, 8, 9]"
    by (simp add: queue_eval)
  have nl: "(\<forall>e. status ?q 11 \<noteq> Rejected e) \<and> (\<forall>e. status ?q 11 \<noteq> Settled (Failed e))"
    unfolding st by simp
  note t = ceiling_holds_and_queue_drains
    [OF d refl, of "[Settle 4 Fulfilled]" "''EACCES''" "Settle 3 (Failed ''EACCES'')" ?pick]
  note a = t [THEN conjunct1]
  note b = t [THEN conjunct2, THEN conjunct2, THEN conjunct1, rule_format]
  note c0 = mp [OF t [THEN conjunct2, THEN conjunct2, THEN conjunct2, THEN conjunct2] pk]
  note c = mp [OF c0 [THEN conjunct2] pf, rule_format]
  have 1: "length (running ?q) \<le> 10"
    using a by (simp only: MAX_CONCURRENT_OPERATIONS_def)
  have lt: "11 < next_call ?q" unfolding n by simp
  have 2: "status (drain ?pick 12 ?q) 11 = Settled Fulfilled"
    using c [OF lt nl] unfolding n .
  have m: "(3::nat) \<in> set [0, 1, 2, 3, 4, 5, 6, 7, 8, 9]" by simp
  have 3: "status (run_queue [Settle 4 Fulfilled] (settle 3 (Failed ''EACCES'') ?q)) 11 = Rejected ''EACCES''"
    using b [OF lt conjI [OF st m]] by (rule conjunct2)
  note t0 = ceiling_holds_and_queue_drains
    [OF d refl, of "[]" "''EACCES''" "Settle 3 (Failed ''EACCES'')" ?pick]
  have "status (run_queue [] (settle 3 (Failed ''EACCES'') ?q)) 11 = Rejected ''EACCES''"
    using t0 [THEN conjunct2, THEN conjunct2, THEN conjunct1, rule_format, OF lt conjI [OF st m]]
    by (rule conjunct2)
  then have r1: "status (queue_step (Settle 3 (Failed ''EACCES'')) ?q) 11 = Rejected ''EACCES''"
    by (simp add: run_queue_def)
  have r2: "status ?q 11 \<noteq> Rejected ''EACCES''" unfolding st by simp
  have 4: "\<exists>p ps. Settle 3 (Failed ''EACCES'') = Settle p (Failed ''EACCES'')
         \<and> status ?q p = Running \<and> status ?q 11 = AwaitRace ps \<and> p \<in> set ps"
    using t [THEN conjunct2, THEN conjunct2, THEN conjunct2, THEN conjunct1, rule_format,
             OF conjI [OF r1 r2]] .
  from 1 2 3 4 show ?thesis by (intro conjI)
qed

text \<open>
  Claim C5 as it was stated fails on this run. Eleven files are deleted at once. Ten
  removals start, the eleventh call waits at the ceiling. The first removal fails; the
  other nine complete. The queue is idle again, with an empty map and no suspended call,
  and the eleventh call has been rejected with the error of the first removal: its
  operation was never started. By \<open>rejected_run\<close> it never will be.
\<close>

theorem a_failure_starves_the_blocked_call:
  "distinct (enqueued_keys first_removal_fails)
   \<and> statuses (run_queue eleven_paths empty_queue)
     = [Running, Running, Running, Running, Running, Running, Running, Running, Running, Running,
        AwaitRace [0, 1, 2, 3, 4, 5, 6, 7, 8, 9]]
   \<and> statuses (run_queue first_removal_fails empty_queue)
     = [Settled (Failed ''EACCES''), Settled Fulfilled, Settled Fulfilled, Settled Fulfilled,
        Settled Fulfilled, Settled Fulfilled, Settled Fulfilled, Settled Fulfilled,
        Settled Fulfilled, Settled Fulfilled, Rejected ''EACCES'']
   \<and> operationQueue (run_queue first_removal_fails empty_queue) = []
   \<and> suspended (run_queue first_removal_fails empty_queue) = []"
  by (simp add: queue_eval eleven_paths_def first_removal_fails_def)


end

